theory Spec2Isabelle
  imports Complex_Main "HOL-Library.Log_Nat" "HOL-Library.Multiset"
begin

section \<open>JavaScript numbers\<close>

text \<open>
  Every number of the dashboard is an ECMAScript Number, an IEEE 754 binary64 value.
  A number is kept as a sign and a rational magnitude, which makes the sign rules of
  multiplication and division uniform and keeps the two zeros apart:
  \<open>Num False 0\<close> is \<open>+0\<close>, \<open>Num True 0\<close> is \<open>-0\<close>, \<open>Infinity False\<close> is \<open>Infinity\<close>.
  The sign is \<open>True\<close> for a negative number.
\<close>

datatype jsnum = NaN | Infinity bool | Num bool rat

definition val :: "bool \<Rightarrow> rat \<Rightarrow> rat" where
  "val s m = (if s then - m else m)"

text \<open>The Number with a whole value (every whole number up to \<open>2\<^sup>5\<^sup>3\<close> is one).\<close>

definition num_of_int :: "int \<Rightarrow> jsnum" where
  "num_of_int i = Num (i < 0) (of_int \<bar>i\<bar>)"

subsection \<open>Rounding to the nearest double, ties to even\<close>

text \<open>\<open>ilog2 x\<close> is the binary exponent of a positive rational: \<open>2\<^sup>e \<le> x < 2\<^sup>e\<^sup>+\<^sup>1\<close>.\<close>

definition ilog2 :: "rat \<Rightarrow> int" where
  "ilog2 x = (let (p, q) = quotient_of x; k = bitlen p - bitlen q
              in if 2 powi k \<le> x then k else k - 1)"

definition round_half_even :: "rat \<Rightarrow> int" where
  "round_half_even x =
     (let f = \<lfloor>x\<rfloor>; d = x - of_int f
      in if d < 1 / 2 then f
         else if 1 / 2 < d then f + 1
         else if even f then f else f + 1)"

text \<open>
  The spacing of the doubles around a positive magnitude: 53 significant bits, and
  the fixed spacing \<open>2\<^sup>-\<^sup>1\<^sup>0\<^sup>7\<^sup>4\<close> of the subnormal range below \<open>2\<^sup>-\<^sup>1\<^sup>0\<^sup>2\<^sup>2\<close>.
\<close>

definition ulp :: "rat \<Rightarrow> rat" where
  "ulp m = 2 powi (max (ilog2 m) (- 1022) - 52)"

definition rnd :: "rat \<Rightarrow> rat" where
  "rnd m = of_int (round_half_even (m / ulp m)) * ulp m"

text \<open>A rounded magnitude of \<open>2\<^sup>1\<^sup>0\<^sup>2\<^sup>4\<close> or more overflows to infinity.\<close>

definition round_mag :: "bool \<Rightarrow> rat \<Rightarrow> jsnum" where
  "round_mag s m =
     (if m = 0 then Num s 0
      else if 2 powi 1024 \<le> rnd m then Infinity s
      else Num s (rnd m))"

subsection \<open>The operators the dashboard uses\<close>

fun js_div :: "jsnum \<Rightarrow> jsnum \<Rightarrow> jsnum" where
  "js_div NaN _ = NaN"
| "js_div _ NaN = NaN"
| "js_div (Infinity s) (Infinity t) = NaN"
| "js_div (Infinity s) (Num t n) = Infinity (s \<noteq> t)"
| "js_div (Num s m) (Infinity t) = Num (s \<noteq> t) 0"
| "js_div (Num s m) (Num t n) =
     (if n = 0 then (if m = 0 then NaN else Infinity (s \<noteq> t))
      else round_mag (s \<noteq> t) (m / n))"

fun js_mul :: "jsnum \<Rightarrow> jsnum \<Rightarrow> jsnum" where
  "js_mul NaN _ = NaN"
| "js_mul _ NaN = NaN"
| "js_mul (Infinity s) (Infinity t) = Infinity (s \<noteq> t)"
| "js_mul (Infinity s) (Num t n) = (if n = 0 then NaN else Infinity (s \<noteq> t))"
| "js_mul (Num s m) (Infinity t) = (if m = 0 then NaN else Infinity (s \<noteq> t))"
| "js_mul (Num s m) (Num t n) = round_mag (s \<noteq> t) (m * n)"

text \<open>
  An exact sum of zero is \<open>+0\<close>, except that \<open>-0 + -0\<close> is \<open>-0\<close>; subtraction adds the
  negated operand.
\<close>

fun js_add :: "jsnum \<Rightarrow> jsnum \<Rightarrow> jsnum" where
  "js_add NaN _ = NaN"
| "js_add _ NaN = NaN"
| "js_add (Infinity s) (Infinity t) = (if s = t then Infinity s else NaN)"
| "js_add (Infinity s) (Num t n) = Infinity s"
| "js_add (Num s m) (Infinity t) = Infinity t"
| "js_add (Num s m) (Num t n) =
     (let v = val s m + val t n
      in if v = 0 then Num (s \<and> t) 0 else round_mag (v < 0) \<bar>v\<bar>)"

fun js_neg :: "jsnum \<Rightarrow> jsnum" where
  "js_neg NaN = NaN"
| "js_neg (Infinity s) = Infinity (\<not> s)"
| "js_neg (Num s m) = Num (\<not> s) m"

definition js_sub :: "jsnum \<Rightarrow> jsnum \<Rightarrow> jsnum" where
  "js_sub x y = js_add x (js_neg y)"

text \<open>\<open>x < y\<close>; a comparison with \<open>NaN\<close> is undefined, which \<open><\<close> turns into false.\<close>

fun js_lt :: "jsnum \<Rightarrow> jsnum \<Rightarrow> bool" where
  "js_lt NaN _ = False"
| "js_lt _ NaN = False"
| "js_lt (Infinity s) (Infinity t) = (s \<and> \<not> t)"
| "js_lt (Infinity s) (Num t n) = s"
| "js_lt (Num s m) (Infinity t) = (\<not> t)"
| "js_lt (Num s m) (Num t n) = (val s m < val t n)"

fun is_NaN :: "jsnum \<Rightarrow> bool" where
  "is_NaN NaN = True"
| "is_NaN _ = False"

text \<open>\<open>x >= y\<close> is the negation of \<open>x < y\<close> unless that comparison is undefined.\<close>

definition js_ge :: "jsnum \<Rightarrow> jsnum \<Rightarrow> bool" where
  "js_ge x y = (\<not> is_NaN x \<and> \<not> is_NaN y \<and> \<not> js_lt x y)"

text \<open>
  \<open>Math.floor\<close> and \<open>Math.ceil\<close>. A result of zero keeps the sign of the argument
  (\<open>Math.ceil(-0.5)\<close> is \<open>-0\<close>; a floor of zero comes from \<open>\<plusminus>0\<close> or from \<open>(0, 1)\<close>).
\<close>

fun js_floor :: "jsnum \<Rightarrow> jsnum" where
  "js_floor NaN = NaN"
| "js_floor (Infinity s) = Infinity s"
| "js_floor (Num s m) =
     (let f = \<lfloor>val s m\<rfloor> in if f = 0 then Num s 0 else num_of_int f)"

fun js_ceil :: "jsnum \<Rightarrow> jsnum" where
  "js_ceil NaN = NaN"
| "js_ceil (Infinity s) = Infinity s"
| "js_ceil (Num s m) =
     (let c = \<lceil>val s m\<rceil> in if c = 0 then Num s 0 else num_of_int c)"


text \<open>
  \<open>Math.max\<close> and \<open>Math.min\<close> of two numbers; \<open>+0\<close> counts as larger than \<open>-0\<close>.
\<close>

definition js_max :: "jsnum \<Rightarrow> jsnum \<Rightarrow> jsnum" where
  "js_max x y =
     (if is_NaN x \<or> is_NaN y then NaN
      else if js_lt x y then y
      else if js_lt y x then x
      else (case (x, y) of (Num s m, Num t n) \<Rightarrow> Num (s \<and> t) m | _ \<Rightarrow> x))"

definition js_min :: "jsnum \<Rightarrow> jsnum \<Rightarrow> jsnum" where
  "js_min x y =
     (if is_NaN x \<or> is_NaN y then NaN
      else if js_lt x y then x
      else if js_lt y x then y
      else (case (x, y) of (Num s m, Num t n) \<Rightarrow> Num (s \<or> t) m | _ \<Rightarrow> x))"

subsection \<open>Numbers as text\<close>

text \<open>
  The decimal digits of a natural number, and the text a template literal puts for a
  number. Only the numbers the dashboard prints are covered: \<open>NaN\<close>, the infinities
  and the whole numbers below \<open>10\<^sup>2\<^sup>1\<close>. \<open>None\<close> stands for the others (a number with a
  fraction, or one that is printed with an exponent).
\<close>

definition digit_char :: "nat \<Rightarrow> char" where
  "digit_char d = ''0123456789'' ! d"

fun digits :: "nat \<Rightarrow> string" where
  "digits n =
     (if n < 10 then [digit_char n]
      else digits (n div 10) @ [digit_char (n mod 10)])"

declare digits.simps [simp del]

fun number_to_string :: "jsnum \<Rightarrow> string option" where
  "number_to_string NaN = Some ''NaN''"
| "number_to_string (Infinity s) = Some (if s then ''-Infinity'' else ''Infinity'')"
| "number_to_string (Num s m) =
     (if m = of_int \<lfloor>m\<rfloor> \<and> 0 \<le> m \<and> m < 10 ^ 21
      then Some ((if s \<and> m \<noteq> 0 then ''-'' else []) @ digits (nat \<lfloor>m\<rfloor>))
      else None)"

subsection \<open>Arrays\<close>

text \<open>
  \<open>Array.prototype.slice(start, end)\<close>: each argument is truncated to a whole number
  (\<open>NaN\<close> counts as 0), a negative one counts from the end, and both are clamped to
  the length. The result is a new array.
\<close>

definition relative_index :: "nat \<Rightarrow> jsnum \<Rightarrow> nat" where
  "relative_index len x =
     (case x of
        NaN \<Rightarrow> 0
      | Infinity s \<Rightarrow> if s then 0 else len
      | Num s m \<Rightarrow>
          let i = (if s then - \<lfloor>m\<rfloor> else \<lfloor>m\<rfloor>)
          in if i < 0 then nat (int len + i) else nat (min i (int len)))"

definition slice :: "'a list \<Rightarrow> jsnum \<Rightarrow> jsnum \<Rightarrow> 'a list" where
  "slice xs start end' =
     (let k = relative_index (length xs) start;
          final = relative_index (length xs) end'
      in take (final - k) (drop k xs))"

text \<open>
  \<open>Array.prototype.sort(comparefn)\<close> is stable, and a comparator result of \<open>NaN\<close>
  counts as 0: an element moves behind a later one only when the comparator is
  positive on the pair. For a consistent comparator every stable sort gives the
  result of this insertion sort.
\<close>

fun insert_by :: "('a \<Rightarrow> 'a \<Rightarrow> jsnum) \<Rightarrow> 'a \<Rightarrow> 'a list \<Rightarrow> 'a list" where
  "insert_by cmp x [] = [x]"
| "insert_by cmp x (y # ys) =
     (if js_lt (Num False 0) (cmp x y) then y # insert_by cmp x ys else x # y # ys)"

fun sort_by :: "('a \<Rightarrow> 'a \<Rightarrow> jsnum) \<Rightarrow> 'a list \<Rightarrow> 'a list" where
  "sort_by cmp [] = []"
| "sort_by cmp (x # xs) = insert_by cmp x (sort_by cmp xs)"

section \<open>Strings\<close>

text \<open>
  A string is kept as the bytes of its UTF-8 encoding; on well-formed text one string
  is a contiguous part of another as bytes exactly when it is as code units.
  \<open>String.prototype.includes\<close> scans the positions of the receiver from the left and
  answers whether the search string starts at one of them.
\<close>

fun starts_at :: "string \<Rightarrow> string \<Rightarrow> bool" where
  "starts_at t [] = True"
| "starts_at [] (c # s) = False"
| "starts_at (d # t) (c # s) = (d = c \<and> starts_at t s)"

fun includes' :: "string \<Rightarrow> string \<Rightarrow> bool" where
  "includes' [] s = (s = [])"
| "includes' (d # t) s = (starts_at (d # t) s \<or> includes' t s)"

text \<open>
  \<open>String.prototype.toLowerCase\<close> belongs to the runtime, not to the dashboard: the
  functions that call it take it as the argument \<open>lc\<close>. \<open>ascii_lower\<close> is its
  restriction to ASCII text, used to run the functions on examples.
\<close>

definition ascii_lower_char :: "char \<Rightarrow> char" where
  "ascii_lower_char c =
     (if 65 \<le> (of_char c :: nat) \<and> (of_char c :: nat) \<le> 90
      then char_of (of_char c + 32 :: nat) else c)"

definition ascii_lower :: "string \<Rightarrow> string" where
  "ascii_lower s = map ascii_lower_char s"

section \<open>The hospital view (Dashboard)\<close>

record hospital =
  hospital_id :: int
  name :: string
  district :: string
  contact :: string
  address :: string
  totalBeds :: jsnum
  availableBeds :: jsnum
  icuBeds :: jsnum
  availableIcu :: jsnum

text \<open>The body of a response of the hospitals endpoint, and the three ways a fetch ends.\<close>

record api_result =
  success :: bool
  data :: "hospital list"
  result_error :: "string option"

datatype fetch_outcome =
    NetworkFailure
  | MalformedBody
  | Body api_result

text \<open>The state of the component; \<open>error = None\<close> is the \<open>null\<close> of the source.\<close>

record dashboard =
  searchTerm :: string
  hospitals :: "hospital list"
  loading :: bool
  error :: "string option"
  filteredHospitals :: "hospital list"

definition initial_dashboard :: dashboard where
  "initial_dashboard =
     \<lparr>searchTerm = [], hospitals = [], loading = True, error = None, filteredHospitals = []\<rparr>"

text \<open>\<open>result.error || 'Failed to fetch hospital data'\<close>: an absent or empty message is falsy.\<close>

definition error_or_default :: "string option \<Rightarrow> string" where
  "error_or_default e =
     (case e of
        None \<Rightarrow> ''Failed to fetch hospital data''
      | Some m \<Rightarrow> if m = [] then ''Failed to fetch hospital data'' else m)"

text \<open>
  One run of \<open>fetchHospitals\<close>, from \<open>setLoading(true)\<close> to the \<open>finally\<close> block. A
  rejected \<open>fetch\<close> and a rejected \<open>response.json()\<close> both land in the \<open>catch\<close> block.
\<close>

definition fetchHospitals :: "fetch_outcome \<Rightarrow> dashboard \<Rightarrow> dashboard" where
  "fetchHospitals outcome st =
     (let st1 = st\<lparr>loading := True, error := None\<rparr>;
          st2 = (case outcome of
                   Body result \<Rightarrow>
                     if success result
                     then st1\<lparr>hospitals := data result, filteredHospitals := data result\<rparr>
                     else st1\<lparr>error := Some (error_or_default (result_error result))\<rparr>
                 | _ \<Rightarrow>
                     st1\<lparr>error :=
                       Some ''Failed to connect to server. Please ensure the backend is running.''\<rparr>)
      in st2\<lparr>loading := False\<rparr>)"

text \<open>The effect on \<open>[searchTerm, hospitals]\<close>: the value it stores, and the effect itself.\<close>

definition matches :: "(string \<Rightarrow> string) \<Rightarrow> string \<Rightarrow> hospital \<Rightarrow> bool" where
  "matches lc term h =
     (includes' (lc (name h)) (lc term) \<or> includes' (lc (district h)) (lc term))"

definition filter_hospitals ::
  "(string \<Rightarrow> string) \<Rightarrow> string \<Rightarrow> hospital list \<Rightarrow> hospital list" where
  "filter_hospitals lc term hs = (if term = [] then hs else filter (matches lc term) hs)"

definition filter_effect :: "(string \<Rightarrow> string) \<Rightarrow> dashboard \<Rightarrow> dashboard" where
  "filter_effect lc st =
     st\<lparr>filteredHospitals := filter_hospitals lc (searchTerm st) (hospitals st)\<rparr>"

record availability_status =
  status :: string
  color :: string
  text' :: string

definition getAvailabilityStatus :: "jsnum \<Rightarrow> jsnum \<Rightarrow> availability_status" where
  "getAvailabilityStatus available total' =
     (let percentage = js_mul (js_div available total') (num_of_int 100)
      in if js_ge percentage (num_of_int 30)
         then \<lparr>status = ''good'', color = ''bg-green-500'', text' = ''Good Availability''\<rparr>
         else if js_ge percentage (num_of_int 15)
         then \<lparr>status = ''moderate'', color = ''bg-yellow-500'',
               text' = ''Moderate Availability''\<rparr>
         else \<lparr>status = ''critical'', color = ''bg-red-500'', text' = ''Critical Shortage''\<rparr>)"

text \<open>
  The relation of the specification, stated on the strings as they are and without
  any lower-casing: two characters are the same up to case when they are equal or
  are the capital and the small form of one letter of the ASCII alphabet, and a
  field contains a term case-insensitively when some contiguous part of the field
  is the term, character by character, up to case.
\<close>

definition same_ignoring_case :: "char \<Rightarrow> char \<Rightarrow> bool" where
  "same_ignoring_case c d =
     (c = d
      \<or> (65 \<le> (of_char c :: nat) \<and> (of_char c :: nat) \<le> 90 \<and> (of_char d :: nat) = of_char c + 32)
      \<or> (65 \<le> (of_char d :: nat) \<and> (of_char d :: nat) \<le> 90 \<and> (of_char c :: nat) = of_char d + 32))"

definition contains_ignoring_case :: "string \<Rightarrow> string \<Rightarrow> bool" where
  "contains_ignoring_case field term =
     (\<exists>before part after.
        field = before @ part @ after \<and> list_all2 same_ignoring_case part term)"

text \<open>
  The runtime's \<open>toLowerCase\<close> on ASCII text and the unaccented Greek letters, on
  the bytes of UTF-8 (a Greek letter is two bytes, the first \<open>0xCE\<close> or \<open>0xCF\<close>). It is
  not a character-by-character map: a capital sigma becomes the final form \<open>0xCF 0x82\<close>
  when a letter precedes it and none follows, and \<open>0xCF 0x83\<close> otherwise (the
  Final_Sigma rule of the Unicode special casing).
\<close>

definition ascii_letter :: "char \<Rightarrow> bool" where
  "ascii_letter c =
     (65 \<le> (of_char c :: nat) \<and> (of_char c :: nat) \<le> 90
      \<or> 97 \<le> (of_char c :: nat) \<and> (of_char c :: nat) \<le> 122)"

definition begins_letter :: "string \<Rightarrow> bool" where
  "begins_letter s =
     (case s of [] \<Rightarrow> False | c # _ \<Rightarrow> ascii_letter c \<or> c = CHR 0xCE \<or> c = CHR 0xCF)"

fun lower_from :: "bool \<Rightarrow> string \<Rightarrow> string" where
  "lower_from after_letter (c # d # s) =
     (if c = CHR 0xCE \<and> d = CHR 0xA3
      then (if after_letter \<and> \<not> begins_letter s
            then [CHR 0xCF, CHR 0x82] else [CHR 0xCF, CHR 0x83]) @ lower_from True s
      else if c = CHR 0xCE \<and> 0x91 \<le> (of_char d :: nat) \<and> (of_char d :: nat) \<le> 0x9F
      then [CHR 0xCE, char_of (of_char d + 0x20 :: nat)] @ lower_from True s
      else if c = CHR 0xCE \<and> 0xA0 \<le> (of_char d :: nat) \<and> (of_char d :: nat) \<le> 0xA9
              \<and> d \<noteq> CHR 0xA2
      then [CHR 0xCF, char_of (of_char d - 0x20 :: nat)] @ lower_from True s
      else if c = CHR 0xCE \<or> c = CHR 0xCF
      then [c, d] @ lower_from True s
      else ascii_lower_char c # lower_from (ascii_letter c) (d # s))"
| "lower_from after_letter [c] = [ascii_lower_char c]"
| "lower_from after_letter [] = []"

definition greek_lower :: "string \<Rightarrow> string" where
  "greek_lower s = lower_from False s"

text \<open>
  A hospital whose name is Asklepieio in Greek capitals (alpha, sigma, kappa, lambda,
  eta, pi, iota, epsilon, iota, omicron), and the view after the first two letters
  of the name, capital alpha and capital sigma, have been typed into the search box.
\<close>

definition asklepieio :: hospital where
  "asklepieio =
     \<lparr>hospital_id = 3,
      name = [CHR 0xCE, CHR 0x91, CHR 0xCE, CHR 0xA3, CHR 0xCE, CHR 0x9A, CHR 0xCE, CHR 0x9B,
              CHR 0xCE, CHR 0x97, CHR 0xCE, CHR 0xA0, CHR 0xCE, CHR 0x99, CHR 0xCE, CHR 0x95,
              CHR 0xCE, CHR 0x99, CHR 0xCE, CHR 0x9F],
      district = ''Attica'', contact = ''210-5550103'', address = ''1 Vasilissis Sofias'',
      totalBeds = num_of_int 120, availableBeds = num_of_int 30,
      icuBeds = num_of_int 12, availableIcu = num_of_int 3\<rparr>"

definition searching_alpha_sigma :: dashboard where
  "searching_alpha_sigma =
     \<lparr>searchTerm = [CHR 0xCE, CHR 0x91, CHR 0xCE, CHR 0xA3], hospitals = [asklepieio],
      loading = False, error = None, filteredHospitals = [asklepieio]\<rparr>"

text \<open>Two hospitals and a state of the view, for running the functions on.\<close>

definition city_general :: hospital where
  "city_general =
     \<lparr>hospital_id = 1, name = ''City General Hospital'', district = ''Mumbai'',
      contact = ''022-5550101'', address = ''12 Marine Drive'',
      totalBeds = num_of_int 100, availableBeds = num_of_int 10,
      icuBeds = num_of_int 10, availableIcu = num_of_int 1\<rparr>"

definition regional_medical :: hospital where
  "regional_medical =
     \<lparr>hospital_id = 2, name = ''Regional Medical Center'', district = ''Delhi'',
      contact = ''011-5550102'', address = ''4 Ring Road'',
      totalBeds = num_of_int 80, availableBeds = num_of_int 40,
      icuBeds = num_of_int 8, availableIcu = num_of_int 4\<rparr>"

definition searching_mum :: dashboard where
  "searching_mum =
     \<lparr>searchTerm = ''MUM'', hospitals = [city_general, regional_medical], loading = False,
      error = None, filteredHospitals = [city_general, regional_medical]\<rparr>"

section \<open>The medicine view (MedicineStock)\<close>

definition getAvailabilityColor :: "string \<Rightarrow> string" where
  "getAvailabilityColor availability =
     (if availability = ''high'' then ''bg-green-500''
      else if availability = ''moderate'' then ''bg-yellow-500''
      else if availability = ''low'' then ''bg-red-500''
      else ''bg-gray-500'')"

definition getAvailabilityText :: "string \<Rightarrow> string" where
  "getAvailabilityText availability =
     (if availability = ''high'' then ''High Availability''
      else if availability = ''moderate'' then ''Moderate Availability''
      else if availability = ''low'' then ''Low Availability''
      else ''Unknown'')"

text \<open>
  An array of the medicine view with its identity: React compares the dependency of
  an effect by identity, not by content. No array of this view is changed in place.
\<close>

record medicine =
  medicine_id :: int
  medicine_name :: string
  manufacturer :: string
  category :: string
  medicine_availability :: string
  warning :: "string option"
  recall :: bool

record medicine_array =
  identity :: nat
  elements :: "medicine list"

record medicine_stock =
  medicine_searchTerm :: string
  medicines :: medicine_array
  medicine_loading :: bool
  medicine_error :: "string option"
  filteredMedicines :: medicine_array
  currentPage :: jsnum

definition itemsPerPage :: jsnum where
  "itemsPerPage = num_of_int 6"

definition array_length :: "'a list \<Rightarrow> jsnum" where
  "array_length xs = num_of_int (int (length xs))"

definition totalPages :: "medicine_stock \<Rightarrow> jsnum" where
  "totalPages st =
     js_ceil (js_div (array_length (elements (filteredMedicines st))) itemsPerPage)"

definition startIndex :: "medicine_stock \<Rightarrow> jsnum" where
  "startIndex st = js_mul (js_sub (currentPage st) (num_of_int 1)) itemsPerPage"

definition endIndex :: "medicine_stock \<Rightarrow> jsnum" where
  "endIndex st = js_add (startIndex st) itemsPerPage"

definition currentMedicines :: "medicine_stock \<Rightarrow> medicine list" where
  "currentMedicines st = slice (elements (filteredMedicines st)) (startIndex st) (endIndex st)"

text \<open>The handlers of the Previous and the Next button.\<close>

definition previous_page :: "medicine_stock \<Rightarrow> medicine_stock" where
  "previous_page st =
     st\<lparr>currentPage := js_max (js_sub (currentPage st) (num_of_int 1)) (num_of_int 1)\<rparr>"

definition next_page :: "medicine_stock \<Rightarrow> medicine_stock" where
  "next_page st =
     st\<lparr>currentPage := js_min (js_add (currentPage st) (num_of_int 1)) (totalPages st)\<rparr>"

text \<open>
  The effect on \<open>[filteredMedicines]\<close>: after a render in which the identity of the
  filtered array differs from the one of the previous render, the page is set to 1.
\<close>

definition page_reset_effect :: "medicine_stock \<Rightarrow> medicine_stock \<Rightarrow> medicine_stock" where
  "page_reset_effect previous st =
     (if identity (filteredMedicines st) \<noteq> identity (filteredMedicines previous)
      then st\<lparr>currentPage := num_of_int 1\<rparr> else st)"

text \<open>A successful fetch stores the array of the response, a new object, twice.\<close>

definition medicines_fetched :: "medicine_array \<Rightarrow> medicine_stock \<Rightarrow> medicine_stock" where
  "medicines_fetched result_data st =
     page_reset_effect st (st\<lparr>medicines := result_data, filteredMedicines := result_data\<rparr>)"

text \<open>A state of the view with eight medicines, showing the second page.\<close>

definition sample_medicine :: "int \<Rightarrow> medicine" where
  "sample_medicine i =
     \<lparr>medicine_id = i, medicine_name = ''Paracetamol 500mg'',
      manufacturer = ''ABC Pharmaceuticals'', category = ''Analgesic'',
      medicine_availability = ''high'', warning = None, recall = False\<rparr>"

definition eight_medicines :: medicine_stock where
  "eight_medicines =
     \<lparr>medicine_searchTerm = [],
      medicines = \<lparr>identity = 1, elements = map sample_medicine [1, 2, 3, 4, 5, 6, 7, 8]\<rparr>,
      medicine_loading = False, medicine_error = None,
      filteredMedicines =
        \<lparr>identity = 1, elements = map sample_medicine [1, 2, 3, 4, 5, 6, 7, 8]\<rparr>,
      currentPage = num_of_int 2\<rparr>"

section \<open>The alert view (Alerts)\<close>

text \<open>
  The \<open>timestamp\<close> of an alert is kept as the time value of \<open>new Date(alert.timestamp)\<close>,
  a whole number of milliseconds.
\<close>

record alert =
  alert_id :: int
  alert_type :: string
  alert_district :: string
  alert_hospital :: string
  severity :: string
  message :: string
  timestamp :: int

text \<open>
  Arrays of alerts live in a store, since \<open>sort\<close> changes its receiver in place and
  two state variables may hold the same array.
\<close>

type_synonym ref = nat
type_synonym store = "ref \<Rightarrow> alert list option"

record alerts_view =
  filter' :: string
  alerts :: ref
  alerts_loading :: bool
  filteredAlerts :: ref

text \<open>
  A successful fetch: \<open>setAlerts(result.data); setFilteredAlerts(result.data)\<close> stores
  the one array of the response, allocated at \<open>r\<close>, in both state variables.
\<close>

definition alerts_fetched ::
  "ref \<Rightarrow> alert list \<Rightarrow> alerts_view \<times> store \<Rightarrow> alerts_view \<times> store" where
  "alerts_fetched r result_data = (\<lambda>(st, h).
     (st\<lparr>alerts := r, filteredAlerts := r, alerts_loading := False\<rparr>, h(r \<mapsto> result_data)))"

text \<open>The comparator \<open>(a, b) => new Date(b.timestamp) - new Date(a.timestamp)\<close>.\<close>

definition by_recency :: "alert \<Rightarrow> alert \<Rightarrow> jsnum" where
  "by_recency a b = js_sub (num_of_int (timestamp b)) (num_of_int (timestamp a))"

definition sort_in_place :: "(alert \<Rightarrow> alert \<Rightarrow> jsnum) \<Rightarrow> ref \<Rightarrow> store \<Rightarrow> store" where
  "sort_in_place cmp r h = (case h r of None \<Rightarrow> h | Some xs \<Rightarrow> h(r \<mapsto> sort_by cmp xs))"

definition contents :: "store \<Rightarrow> ref \<Rightarrow> alert list" where
  "contents h r = (case h r of None \<Rightarrow> [] | Some xs \<Rightarrow> xs)"

text \<open>
  What one render computes from the state, in the order of the source: the two
  counts for the chart, then \<open>recentAlerts = alerts.sort(...).slice(0, 5)\<close>, then the
  list of the main column, which is read from \<open>filteredAlerts\<close> when the markup is
  built (the markup is shown once \<open>loading\<close> is false; the statements before it run
  in every render). The render returns the store as \<open>sort\<close> left it.
\<close>

record rendered_alerts =
  criticalAlerts :: nat
  nonCriticalAlerts :: nat
  recentAlerts :: "alert list"
  listed :: "alert list"

definition render_alerts :: "alerts_view \<Rightarrow> store \<Rightarrow> rendered_alerts \<times> store" where
  "render_alerts st h =
     (let critical = length (filter (\<lambda>a. severity a = ''critical'') (contents h (filteredAlerts st)));
          non_critical =
            length (filter (\<lambda>a. severity a \<noteq> ''critical'') (contents h (filteredAlerts st)));
          h' = sort_in_place by_recency (alerts st) h;
          recent = slice (contents h' (alerts st)) (num_of_int 0) (num_of_int 5)
      in (\<lparr>criticalAlerts = critical, nonCriticalAlerts = non_critical,
           recentAlerts = recent, listed = contents h' (filteredAlerts st)\<rparr>, h'))"

text \<open>
  \<open>formatTime\<close>, with the clock reading of \<open>new Date()\<close> as the argument \<open>now\<close>; both
  arguments are time values.
\<close>

definition formatTime :: "int \<Rightarrow> int \<Rightarrow> string option" where
  "formatTime now timestamp' =
     (let diffMs = js_sub (num_of_int now) (num_of_int timestamp');
          diffMins = js_floor (js_div diffMs (num_of_int 60000));
          diffHours = js_floor (js_div diffMs (num_of_int 3600000));
          diffDays = js_floor (js_div diffMs (num_of_int 86400000))
      in if js_lt diffMins (num_of_int 60)
         then map_option (\<lambda>n. n @ '' minutes ago'') (number_to_string diffMins)
         else if js_lt diffHours (num_of_int 24)
         then map_option (\<lambda>n. n @ '' hours ago'') (number_to_string diffHours)
         else map_option (\<lambda>n. n @ '' days ago'') (number_to_string diffDays))"

text \<open>Two alerts of the mock data, the older one first, and a store that holds them.\<close>

definition older_alert :: alert where
  "older_alert =
     \<lparr>alert_id = 2, alert_type = ''medicine'', alert_district = ''Delhi'',
      alert_hospital = ''Regional Medical Center'', severity = ''critical'',
      message = ''Insulin Glargine shortage - urgent restocking needed'',
      timestamp = 1705310100000\<rparr>"

definition newer_alert :: alert where
  "newer_alert =
     \<lparr>alert_id = 1, alert_type = ''bed'', alert_district = ''Mumbai'',
      alert_hospital = ''City General Hospital'', severity = ''critical'',
      message = ''ICU beds at critical shortage - only 1 bed available'',
      timestamp = 1705314600000\<rparr>"

definition fetched_view :: "alerts_view \<times> store" where
  "fetched_view =
     alerts_fetched 0 [older_alert, newer_alert]
       (\<lparr>filter' = ''all'', alerts = 1, alerts_loading = True, filteredAlerts = 2\<rparr>,
        [1 \<mapsto> [], 2 \<mapsto> []])"

section \<open>Properties of rounding\<close>

lemma rhe_of_int: "round_half_even (of_int n) = n"
  by (simp add: round_half_even_def)

lemma rhe_lower: "x - 1 / 2 \<le> of_int (round_half_even x)"
  unfolding round_half_even_def Let_def by (auto; linarith)

lemma rhe_upper: "of_int (round_half_even x) \<le> x + 1 / 2"
  unfolding round_half_even_def Let_def by (auto; linarith)

lemma rhe_ge_floor: "\<lfloor>x\<rfloor> \<le> round_half_even x"
  unfolding round_half_even_def Let_def by auto

lemma rhe_le_floor1: "round_half_even x \<le> \<lfloor>x\<rfloor> + 1"
  unfolding round_half_even_def Let_def by auto

lemma rhe_mono:
  assumes "x \<le> y"
  shows "round_half_even x \<le> round_half_even y"
proof (cases "\<lfloor>x\<rfloor> = \<lfloor>y\<rfloor>")
  case True
  with assms show ?thesis
    unfolding round_half_even_def Let_def by auto
next
  case False
  with assms have "\<lfloor>x\<rfloor> < \<lfloor>y\<rfloor>"
    by (simp add: floor_mono order.strict_iff_order)
  then have "round_half_even x \<le> \<lfloor>y\<rfloor>" using rhe_le_floor1 [of x] by linarith
  then show ?thesis using rhe_ge_floor [of y] by linarith
qed

lemma rhe_less_int:
  assumes "x < of_int n - 1 / 2"
  shows "round_half_even x < n"
proof -
  have "(of_int (round_half_even x) :: rat) < of_int n"
    using rhe_upper [of x] assms by linarith
  then show ?thesis by simp
qed

lemma rhe_greater_int:
  assumes "of_int n + 1 / 2 < x"
  shows "n < round_half_even x"
proof -
  have "(of_int n :: rat) < of_int (round_half_even x)"
    using rhe_lower [of x] assms by linarith
  then show ?thesis by simp
qed

lemma ilog2_bounds:
  assumes "0 < x"
  shows "2 powi ilog2 x \<le> x" and "x < 2 powi (ilog2 x + 1)"
proof -
  obtain p q where pq: "quotient_of x = (p, q)" by (cases "quotient_of x")
  then have q: "0 < q" and x: "x = of_int p / of_int q"
    using quotient_of_denom_pos quotient_of_div by blast+
  with assms have p: "0 < p"
    by (simp add: zero_less_divide_iff)
  define k where "k = bitlen p - bitlen q"
  have bp: "2 ^ nat (bitlen p - 1) \<le> p" "p < 2 ^ nat (bitlen p)"
    using bitlen_bounds [OF p] by auto
  have bq: "2 ^ nat (bitlen q - 1) \<le> q" "q < 2 ^ nat (bitlen q)"
    using bitlen_bounds [OF q] by auto
  have blp: "0 < bitlen p" and blq: "0 < bitlen q"
  proof -
    show "0 < bitlen p" using bp(2) p by (cases "bitlen p \<le> 0") auto
    show "0 < bitlen q" using bq(2) q by (cases "bitlen q \<le> 0") auto
  qed
  have P1: "(2::rat) powi (bitlen p - 1) \<le> of_int p"
  proof -
    have "(of_int (2 ^ nat (bitlen p - 1)) :: rat) \<le> of_int p"
      using bp(1) of_int_le_iff by blast
    then show ?thesis using blp by (simp add: power_int_def)
  qed
  have P2: "of_int p < (2::rat) powi bitlen p"
  proof -
    have "(of_int p :: rat) < of_int (2 ^ nat (bitlen p))"
      using bp(2) of_int_less_iff by blast
    then show ?thesis using blp by (simp add: power_int_def)
  qed
  have Q1: "(2::rat) powi (bitlen q - 1) \<le> of_int q"
  proof -
    have "(of_int (2 ^ nat (bitlen q - 1)) :: rat) \<le> of_int q"
      using bq(1) of_int_le_iff by blast
    then show ?thesis using blq by (simp add: power_int_def)
  qed
  have Q2: "of_int q < (2::rat) powi bitlen q"
  proof -
    have "(of_int q :: rat) < of_int (2 ^ nat (bitlen q))"
      using bq(2) of_int_less_iff by blast
    then show ?thesis using blq by (simp add: power_int_def)
  qed
  have qpos: "(0::rat) < of_int q" using q by simp
  have up: "x < 2 powi (k + 1)"
  proof -
    have "x * of_int q = of_int p" using x qpos by simp
    also have "\<dots> < 2 powi bitlen p" by (rule P2)
    also have "\<dots> = (2::rat) powi (k + 1) * 2 powi (bitlen q - 1)"
      by (simp add: k_def flip: power_int_add)
    also have "\<dots> \<le> 2 powi (k + 1) * of_int q"
      using Q1 by (simp add: mult_left_mono)
    finally show ?thesis using qpos by simp
  qed
  have low: "2 powi (k - 1) < x"
  proof -
    have "(2::rat) powi (k - 1) * of_int q < 2 powi (k - 1) * 2 powi bitlen q"
      using Q2 by (simp add: mult_strict_left_mono)
    also have "\<dots> = 2 powi (bitlen p - 1)"
      by (simp add: k_def flip: power_int_add)
    also have "\<dots> \<le> of_int p" by (rule P1)
    also have "\<dots> = x * of_int q" using x qpos by simp
    finally show ?thesis using qpos by simp
  qed
  have il: "ilog2 x = (if 2 powi k \<le> x then k else k - 1)"
    by (simp add: ilog2_def pq k_def Let_def)
  show "2 powi ilog2 x \<le> x" using il low by (auto simp: less_imp_le)
  show "x < 2 powi (ilog2 x + 1)" using il up by (auto simp: not_le)
qed

lemma ilog2_unique:
  assumes "2 powi e \<le> x" and "x < 2 powi (e + 1)"
  shows "ilog2 x = e"
proof -
  have pos: "0 < x" using assms(1) zero_less_power_int [of "2::rat" e] by linarith
  note b = ilog2_bounds [OF pos]
  have "2 powi e < (2::rat) powi (ilog2 x + 1)" using assms(1) b(2) by linarith
  then have 1: "e < ilog2 x + 1"
    using power_int_increasing [of "ilog2 x + 1" e "2::rat"] by (cases "e < ilog2 x + 1") auto
  have "2 powi ilog2 x < (2::rat) powi (e + 1)" using assms(2) b(1) by linarith
  then have 2: "ilog2 x < e + 1"
    using power_int_increasing [of "e + 1" "ilog2 x" "2::rat"] by (cases "ilog2 x < e + 1") auto
  from 1 2 show ?thesis by linarith
qed

lemma ilog2_mono:
  assumes "0 < x" and "x \<le> y"
  shows "ilog2 x \<le> ilog2 y"
proof (rule ccontr)
  assume "\<not> ilog2 x \<le> ilog2 y"
  then have "ilog2 y + 1 \<le> ilog2 x" by simp
  then have "(2::rat) powi (ilog2 y + 1) \<le> 2 powi ilog2 x"
    by (simp add: power_int_increasing)
  moreover have "0 < y" using assms by linarith
  ultimately show False
    using ilog2_bounds(1) [OF assms(1)] ilog2_bounds(2) [of y] assms(2) by linarith
qed

lemma ulp_pos: "0 < ulp m"
  by (simp add: ulp_def)

lemma ulp_binade:
  assumes "2 powi e \<le> m" and "m < 2 powi (e + 1)" and "- 1022 \<le> e"
  shows "ulp m = 2 powi (e - 52)"
  using ilog2_unique [OF assms(1,2)] assms(3) by (simp add: ulp_def max_def)

lemma rnd_binade:
  assumes "2 powi e \<le> m" and "m < 2 powi (e + 1)" and "- 1022 \<le> e"
  shows "rnd m = of_int (round_half_even (m * 2 powi (52 - e))) * 2 powi (e - 52)"
proof -
  have "m / 2 powi (e - 52) = m * 2 powi (52 - e)"
    by (simp add: power_int_diff field_simps)
  then show ?thesis by (simp add: rnd_def ulp_binade [OF assms])
qed

text \<open>The exponent that fixes the grid, and the two bounds it gives.\<close>

lemma grid_upper:
  assumes "0 < x"
  shows "rnd x \<le> 2 powi (max (ilog2 x) (- 1022) + 1)"
proof -
  define E where "E = max (ilog2 x) (- 1022)"
  have u: "ulp x = 2 powi (E - 52)" by (simp add: ulp_def E_def)
  have "x < 2 powi (ilog2 x + 1)" by (rule ilog2_bounds(2) [OF assms])
  also have "\<dots> \<le> 2 powi (E + 1)" by (simp add: E_def power_int_increasing)
  finally have "x / ulp x \<le> 2 powi (E + 1) / 2 powi (E - 52)"
    by (simp add: u divide_right_mono)
  also have "\<dots> = (2::rat) powi 53" by (simp flip: power_int_diff)
  also have "\<dots> = of_int (2 ^ 53)" by simp
  finally have "round_half_even (x / ulp x) \<le> 2 ^ 53"
    using rhe_mono [of "x / ulp x" "of_int (2 ^ 53)"] by (simp only: rhe_of_int)
  then have "(of_int (round_half_even (x / ulp x)) :: rat) \<le> of_int (2 ^ 53)"
    by (simp only: of_int_le_iff)
  then have "rnd x \<le> of_int (2 ^ 53) * ulp x"
    unfolding rnd_def using ulp_pos [of x] by (simp only: mult_right_mono less_imp_le)
  also have "\<dots> = 2 powi 53 * 2 powi (E - 52)" by (simp add: u)
  also have "\<dots> = (2::rat) powi (53 + (E - 52))" by (rule power_int_add [symmetric]) simp
  also have "53 + (E - 52) = E + 1" by simp
  finally show ?thesis by (simp add: E_def)
qed

lemma grid_lower:
  assumes "2 powi (max (ilog2 x) (- 1022)) \<le> x"
  shows "2 powi (max (ilog2 x) (- 1022)) \<le> rnd x"
proof -
  define E where "E = max (ilog2 x) (- 1022)"
  have u: "ulp x = 2 powi (E - 52)" by (simp add: ulp_def E_def)
  have "(2::rat) powi 52 = 2 powi E / 2 powi (E - 52)" by (simp flip: power_int_diff)
  also have "\<dots> \<le> x / ulp x"
    using assms by (simp add: u E_def divide_right_mono)
  finally have "of_int (2 ^ 52) \<le> x / ulp x" by simp
  then have "2 ^ 52 \<le> round_half_even (x / ulp x)"
    using rhe_mono [of "of_int (2 ^ 52)" "x / ulp x"] by (simp only: rhe_of_int)
  then have "(of_int (2 ^ 52) :: rat) \<le> of_int (round_half_even (x / ulp x))"
    by (simp only: of_int_le_iff)
  then have "of_int (2 ^ 52) * ulp x \<le> rnd x"
    unfolding rnd_def using ulp_pos [of x] by (simp only: mult_right_mono less_imp_le)
  moreover have "of_int (2 ^ 52) * ulp x = 2 powi 52 * 2 powi (E - 52)" by (simp add: u)
  moreover have "(2::rat) powi 52 * 2 powi (E - 52) = 2 powi (52 + (E - 52))"
    by (rule power_int_add [symmetric]) simp
  moreover have "52 + (E - 52) = E" by simp
  ultimately show ?thesis by (simp add: E_def)
qed

lemma rnd_mono:
  assumes "0 < x" and "x \<le> y"
  shows "rnd x \<le> rnd y"
proof -
  define E where "E = max (ilog2 x) (- 1022)"
  define F where "F = max (ilog2 y) (- 1022)"
  have EF: "E \<le> F" using ilog2_mono [OF assms] by (simp add: E_def F_def max_def)
  show ?thesis
  proof (cases "E = F")
    case True
    then have u: "ulp x = ulp y" by (simp add: ulp_def E_def F_def)
    have "x / ulp y \<le> y / ulp y"
      using assms(2) ulp_pos [of y] by (simp add: divide_right_mono)
    then have "round_half_even (x / ulp y) \<le> round_half_even (y / ulp y)" by (rule rhe_mono)
    then have "(of_int (round_half_even (x / ulp y)) :: rat)
               \<le> of_int (round_half_even (y / ulp y))" by (simp only: of_int_le_iff)
    then show ?thesis
      unfolding rnd_def u using ulp_pos [of y] by (simp only: mult_right_mono less_imp_le)
  next
    case False
    with EF have lt: "E + 1 \<le> F" by simp
    then have "F = ilog2 y" by (simp add: F_def E_def max_def split: if_splits)
    moreover have "0 < y" using assms by linarith
    ultimately have "2 powi F \<le> y" using ilog2_bounds(1) [of y] by simp
    then have "2 powi F \<le> rnd y" using grid_lower [of y] by (simp add: F_def)
    moreover have "rnd x \<le> 2 powi (E + 1)" using grid_upper [OF assms(1)] by (simp add: E_def)
    moreover have "(2::rat) powi (E + 1) \<le> 2 powi F" using lt by (simp add: power_int_increasing)
    ultimately show ?thesis by linarith
  qed
qed

lemma pow53: "(2::rat) powi 53 = of_int (2 ^ 53)"
  by simp

lemma rnd_div_int:
  fixes d k :: int
  assumes d: "0 < d" "d < 2 ^ 53" and k: "0 < k" "k \<le> 2 ^ 53"
  shows "d mod k = 0 \<Longrightarrow> rnd (of_int d / of_int k) = of_int (d div k)"
    and "d mod k \<noteq> 0 \<Longrightarrow> of_int (d div k) < rnd (of_int d / of_int k) \<and>
                             rnd (of_int d / of_int k) < of_int (d div k) + 1"
proof -
  define x :: rat where "x = of_int d / of_int k"
  define e where "e = ilog2 x"
  define U :: int where "U = 2 ^ nat (52 - e)"
  define q where "q = d div k"
  define r where "r = d mod k"
  have kpos: "(0::rat) < of_int k" using k by simp
  have xpos: "0 < x" using d k by (simp add: x_def)
  have lo: "2 powi e \<le> x" and hi: "x < 2 powi (e + 1)"
    using ilog2_bounds [OF xpos] by (simp_all add: e_def)
  have kx: "of_int k * x = of_int d" using kpos by (simp add: x_def)
  have k1: "(1::rat) \<le> of_int k" using k(1) by simp
  have d1: "(1::rat) \<le> of_int d" using d(1) by simp
  have dlt: "(of_int d :: rat) < 2 powi 53"
    unfolding pow53 using d(2) by (simp only: of_int_less_iff)
  have kle: "(of_int k :: rat) \<le> 2 powi 53"
    unfolding pow53 using k(2) by (simp only: of_int_le_iff)
  have "1 * x \<le> of_int k * x"
    using k1 xpos by (intro mult_right_mono) simp_all
  then have xle: "x \<le> of_int d" using kx by simp
  have e_hi: "e \<le> 52"
  proof (rule ccontr)
    assume "\<not> e \<le> 52"
    then have "(2::rat) powi 53 \<le> 2 powi e" by (intro power_int_increasing) simp_all
    with lo xle dlt show False by linarith
  qed
  have e_lo: "- 1022 \<le> e"
  proof (rule ccontr)
    assume "\<not> - 1022 \<le> e"
    then have "(2::rat) powi (e + 1) \<le> 2 powi (- 53)" by (intro power_int_increasing) simp_all
    with hi have "x < 2 powi (- 53)" by linarith
    then have "of_int k * x < of_int k * 2 powi (- 53)"
      using kpos by (simp only: mult_strict_left_mono)
    also have "\<dots> \<le> 2 powi 53 * 2 powi (- 53)"
      using kle by (intro mult_right_mono) simp_all
    also have "\<dots> = (1::rat)" by simp
    finally show False using kx d1 by linarith
  qed
  have Upos: "0 < U" by (simp add: U_def)
  have U: "(2::rat) powi (52 - e) = of_int U"
    using e_hi by (simp add: U_def power_int_def)
  have Uinv: "(2::rat) powi (e - 52) = 1 / of_int U"
  proof -
    have "(2::rat) powi (e - 52) = 2 powi (- (52 - e))" by simp
    also have "\<dots> = inverse (2 powi (52 - e))" by (rule power_int_minus)
    finally show ?thesis by (simp add: U inverse_eq_divide)
  qed
  have rx: "rnd x = of_int (round_half_even (x * of_int U)) / of_int U"
    using rnd_binade [OF lo hi e_lo] by (simp add: U Uinv)
  have k2U: "of_int k < 2 * (of_int U :: rat)"
  proof -
    have "of_int k * 2 powi e \<le> of_int k * x"
      using lo kpos by (simp only: mult_left_mono less_imp_le)
    then have "of_int k * 2 powi e < (2::rat) powi 53" using kx dlt by linarith
    then have "of_int k * 2 powi e * 2 powi (52 - e) < (2::rat) powi 53 * 2 powi (52 - e)"
      by (simp only: mult_strict_right_mono zero_less_power_int zero_less_numeral)
    moreover have "(2::rat) powi e * 2 powi (52 - e) = 2 powi (e + (52 - e))"
      by (rule power_int_add [symmetric]) simp
    moreover have "e + (52 - e) = 52" by simp
    ultimately have "of_int k * (2::rat) powi 52 < 2 powi 53 * of_int U"
      by (simp add: U mult.assoc)
    then show ?thesis by simp
  qed
  have Ur: "(0::rat) < of_int U" using Upos by simp
  have half: "1 / 2 < (of_int U :: rat) / of_int k"
    using k2U kpos by (simp add: field_simps)
  have dqr: "(of_int d :: rat) = of_int q * of_int k + of_int r"
  proof -
    have "d = q * k + r" by (simp add: q_def r_def)
    then have "(of_int d :: rat) = of_int (q * k + r)" by simp
    then show ?thesis by simp
  qed
  have xU: "x * of_int U = of_int (q * U) + of_int r * (of_int U / of_int k)"
    using kpos by (simp add: x_def dqr field_simps)
  show "rnd (of_int d / of_int k) = of_int (d div k)" if "d mod k = 0"
  proof -
    have "x * of_int U = of_int (q * U)" using that xU by (simp add: r_def)
    then have "round_half_even (x * of_int U) = q * U" by (simp only: rhe_of_int)
    then have "rnd x = of_int (q * U) / of_int U" by (simp only: rx)
    then show ?thesis using Ur by (simp add: x_def q_def)
  qed
  show "of_int (d div k) < rnd (of_int d / of_int k) \<and>
        rnd (of_int d / of_int k) < of_int (d div k) + 1" if "d mod k \<noteq> 0"
  proof -
    have r1: "1 \<le> r" and r2: "r \<le> k - 1"
    proof -
      have "0 \<le> d mod k" "d mod k < k" using k(1) by simp_all
      with that show "1 \<le> r" "r \<le> k - 1" unfolding r_def by linarith+
    qed
    have "1 * ((of_int U :: rat) / of_int k) \<le> of_int r * (of_int U / of_int k)"
      using r1 Ur kpos by (intro mult_right_mono) simp_all
    then have A: "of_int (q * U) + 1 / 2 < x * of_int U" using half xU by linarith
    have "of_int r * ((of_int U :: rat) / of_int k) \<le> of_int (k - 1) * (of_int U / of_int k)"
      using r2 Ur kpos by (intro mult_right_mono) simp_all
    also have "\<dots> = of_int U - of_int U / of_int k"
      using kpos by (simp add: field_simps)
    finally have "of_int r * ((of_int U :: rat) / of_int k) \<le> of_int U - of_int U / of_int k" .
    moreover have "(of_int ((q + 1) * U) :: rat) = of_int (q * U) + of_int U"
      by (simp add: algebra_simps)
    ultimately have B: "x * of_int U < of_int ((q + 1) * U) - 1 / 2"
      using half xU by linarith
    have "q * U < round_half_even (x * of_int U)" using A by (rule rhe_greater_int)
    then have "(of_int (q * U) :: rat) < of_int (round_half_even (x * of_int U))"
      by (simp only: of_int_less_iff)
    then have L: "of_int q < rnd x" using Ur by (simp add: rx field_simps)
    have "round_half_even (x * of_int U) < (q + 1) * U" using B by (rule rhe_less_int)
    then have "(of_int (round_half_even (x * of_int U)) :: rat) < of_int ((q + 1) * U)"
      by (simp only: of_int_less_iff)
    then have R: "rnd x < of_int q + 1" using Ur by (simp add: rx field_simps)
    from L R show ?thesis by (simp add: x_def q_def)
  qed
qed

lemma rnd_int:
  assumes "0 < n" and "n < 2 ^ 53"
  shows "rnd (of_int n) = of_int n"
  using rnd_div_int(1) [OF assms, of 1] by simp

lemma floor_rnd_div:
  assumes "0 < d" and "d < 2 ^ 53" and "0 < k" and "k \<le> 2 ^ 53"
  shows "\<lfloor>rnd (of_int d / of_int k)\<rfloor> = d div k"
proof (cases "d mod k = 0")
  case True
  then show ?thesis using rnd_div_int(1) [OF assms] by simp
next
  case False
  then show ?thesis using rnd_div_int(2) [OF assms] by (auto simp: floor_unique less_imp_le)
qed

lemma ceiling_rnd_div:
  assumes "0 < d" and "d < 2 ^ 53" and "0 < k" and "k \<le> 2 ^ 53"
  shows "\<lceil>rnd (of_int d / of_int k)\<rceil> = (if d mod k = 0 then d div k else d div k + 1)"
proof (cases "d mod k = 0")
  case True
  then show ?thesis using rnd_div_int(1) [OF assms] by simp
next
  case False
  then show ?thesis using rnd_div_int(2) [OF assms]
    by (auto intro!: ceiling_unique simp: less_imp_le)
qed

lemma rnd_no_overflow:
  assumes "0 < x" and "x < 2 powi 1023"
  shows "rnd x < 2 powi 1024"
proof -
  have "ilog2 x \<le> 1022"
  proof (rule ccontr)
    assume "\<not> ilog2 x \<le> 1022"
    then have "(2::rat) powi 1023 \<le> 2 powi ilog2 x" by (intro power_int_increasing) simp_all
    with ilog2_bounds(1) [OF assms(1)] assms(2) show False by linarith
  qed
  then have "max (ilog2 x) (- 1022) + 1 \<le> 1023" by simp
  then have "(2::rat) powi (max (ilog2 x) (- 1022) + 1) \<le> 2 powi 1023"
    by (intro power_int_increasing) simp_all
  moreover have "(2::rat) powi 1023 < 2 powi 1024"
    by (intro power_int_strict_increasing) simp_all
  ultimately show ?thesis using grid_upper [OF assms(1)] by linarith
qed

lemma round_mag_finite:
  assumes "0 < x" and "x < 2 powi 1023"
  shows "round_mag s x = Num s (rnd x)"
  using assms rnd_no_overflow [OF assms] by (simp add: round_mag_def)

lemma num_of_int_nonneg: "0 \<le> i \<Longrightarrow> num_of_int i = Num False (of_int i)"
  by (simp add: num_of_int_def)

lemma c30: "rnd (3 / 10) = 5404319552844595 / 18014398509481984"
  by code_simp
lemma c30p: "rnd (5404319552844595 / 18014398509481984 * 100) = 30"
  by code_simp
lemma m30: "rnd (3 / 10 - 1 / (10 * 2573485501354569)) = 2702159776422297 / 9007199254740992"
  by code_simp
lemma m30p: "rnd (2702159776422297 / 9007199254740992 * 100) = 4222124650659839 / 140737488355328"
  by code_simp
lemma c15: "rnd (3 / 20) = 5404319552844595 / 36028797018963968"
  by code_simp
lemma c15p: "rnd (5404319552844595 / 36028797018963968 * 100) = 15"
  by code_simp
lemma m15: "rnd (3 / 20 - 1 / (20 * 2573485501354569)) = 2702159776422297 / 18014398509481984"
  by code_simp
lemma m15p: "rnd (2702159776422297 / 18014398509481984 * 100) = 4222124650659839 / 281474976710656"
  by code_simp

lemma quotient_rounds_positive:
  fixes a t :: int
  assumes a: "0 < a" "a < 2 ^ 53" and t: "0 < t" "t < 2 ^ 53"
  shows "0 < rnd (of_int a / of_int t)" and "rnd (of_int a / of_int t) < 2 powi 53"
proof -
  have tpos: "(0::rat) < of_int t" using t by simp
  have one: "(0::int) < 1" "(1::int) < 2 ^ 53" by simp_all
  have tle: "t \<le> 2 ^ 53" using t by simp
  have "0 < rnd (of_int 1 / of_int t)"
  proof (cases "1 mod t = 0")
    case True
    then have "t = 1" using t(1) by (metis mod_pos_pos_trivial not_less_iff_gr_or_eq 
          zero_less_one_class.zero_le_one zero_neq_one int_one_le_iff_zero_less linorder_not_less mod_self order_le_less)
    then show ?thesis using rnd_int [of 1] by simp
  next
    case False
    have "1 div t = 0" using False t(1) by (metis div_pos_pos_trivial int_one_le_iff_zero_less 
          linorder_not_less mod_self order_le_less zero_less_one_class.zero_le_one)
    then show ?thesis using rnd_div_int(2) [OF one t(1) tle False] by simp
  qed
  moreover have "(of_int 1 :: rat) / of_int t \<le> of_int a / of_int t"
    using a(1) tpos by (simp add: divide_right_mono)
  moreover have "(0::rat) < of_int 1 / of_int t" using tpos by simp
  ultimately show "0 < rnd (of_int a / of_int t)"
    using rnd_mono [of "of_int 1 / of_int t" "of_int a / of_int t"] by linarith
  have "(of_int a :: rat) / of_int t \<le> of_int a / 1"
    using a(1) t(1) by (intro divide_left_mono) simp_all
  moreover have "(0::rat) < of_int a / of_int t" using a(1) tpos by simp
  ultimately have "rnd (of_int a / of_int t) \<le> rnd (of_int a)"
    using rnd_mono [of "of_int a / of_int t" "of_int a"] by simp
  also have "\<dots> = of_int a" by (rule rnd_int [OF a])
  also have "\<dots> < of_int (2 ^ 53)" using a(2) by (simp only: of_int_less_iff)
  finally show "rnd (of_int a / of_int t) < 2 powi 53" by simp
qed

lemma percentage_eq:
  fixes a t :: int
  assumes a: "0 < a" "a < 2 ^ 53" and t: "0 < t" "t < 2 ^ 53"
  shows "js_mul (js_div (num_of_int a) (num_of_int t)) (num_of_int 100) =
         Num False (rnd (rnd (of_int a / of_int t) * 100))"
proof -
  define y where "y = rnd (of_int a / of_int t)"
  have y: "0 < y" "y < 2 powi 53"
    using quotient_rounds_positive [OF a t] by (simp_all add: y_def)
  have q: "(0::rat) < of_int a / of_int t" using a(1) t(1) by simp
  have "rnd (of_int a / of_int t) < 2 powi 1024"
    using y(2) power_int_strict_increasing [of 53 1024 "2::rat"] by (simp add: y_def)
  then have rm: "round_mag False (of_int a / of_int t) = Num False y"
    using q a(1) t(1) by (simp add: round_mag_def y_def)
  have na: "num_of_int a = Num False (of_int a)" "num_of_int t = Num False (of_int t)"
    "num_of_int 100 = Num False 100"
    using a(1) t(1) by (simp_all add: num_of_int_nonneg)
  have "y * 100 < 2 powi 53 * 2 powi 7" using y by (intro mult_strict_mono) simp_all
  also have "\<dots> = (2::rat) powi 60" by simp
  also have "\<dots> < 2 powi 1023" by (intro power_int_strict_increasing) simp_all
  finally have rm2: "round_mag False (y * 100) = Num False (rnd (y * 100))"
    using y(1) by (intro round_mag_finite) simp_all
  have "js_mul (js_div (num_of_int a) (num_of_int t)) (num_of_int 100) =
        js_mul (round_mag False (of_int a / of_int t)) (Num False 100)"
    using t(1) by (simp add: na)
  also have "\<dots> = js_mul (Num False y) (Num False 100)" by (simp only: rm)
  also have "\<dots> = round_mag False (y * 100)" by simp
  also have "\<dots> = Num False (rnd (y * 100))" by (rule rm2)
  finally show ?thesis by (simp only: y_def)
qed

lemma percentage_ge_30:
  fixes a t :: int
  assumes a: "0 < a" "a < 2 ^ 53" and t: "0 < t" "t < 2 ^ 53"
    and r: "3 / 10 \<le> (of_int a :: rat) / of_int t"
  shows "30 \<le> rnd (rnd (of_int a / of_int t) * 100)"
proof -
  have "rnd (3 / 10) \<le> rnd (of_int a / of_int t)" using r by (intro rnd_mono) simp_all
  then have "5404319552844595 / 18014398509481984 * 100 \<le> rnd (of_int a / of_int t) * 100"
    by (simp add: c30)
  then have "rnd (5404319552844595 / 18014398509481984 * 100)
             \<le> rnd (rnd (of_int a / of_int t) * 100)" by (intro rnd_mono) simp_all
  then show ?thesis by (simp only: c30p)
qed

lemma percentage_ge_15:
  fixes a t :: int
  assumes a: "0 < a" "a < 2 ^ 53" and t: "0 < t" "t < 2 ^ 53"
    and r: "3 / 20 \<le> (of_int a :: rat) / of_int t"
  shows "15 \<le> rnd (rnd (of_int a / of_int t) * 100)"
proof -
  have "rnd (3 / 20) \<le> rnd (of_int a / of_int t)" using r by (intro rnd_mono) simp_all
  then have "5404319552844595 / 36028797018963968 * 100 \<le> rnd (of_int a / of_int t) * 100"
    by (simp add: c15)
  then have "rnd (5404319552844595 / 36028797018963968 * 100)
             \<le> rnd (rnd (of_int a / of_int t) * 100)" by (intro rnd_mono) simp_all
  then show ?thesis by (simp only: c15p)
qed

lemma below_threshold:
  fixes a t n :: int
  assumes t: "0 < t" "t \<le> B" and n: "0 < n" and lt: "(of_int a :: rat) / of_int t < 3 / of_int n"
  shows "of_int a / of_int t \<le> 3 / of_int n - 1 / (of_int n * of_int B :: rat)"
proof -
  have tpos: "(0::rat) < of_int t" and npos: "(0::rat) < of_int n" using t n by simp_all
  have Bpos: "(0::rat) < of_int B" using t by simp
  have "of_int a * of_int n < (3 * of_int t :: rat)"
    using lt tpos npos by (simp add: field_simps)
  then have "(of_int (a * n) :: rat) < of_int (3 * t)" by simp
  then have "a * n < 3 * t" by (simp only: of_int_less_iff)
  then have "a * n \<le> 3 * t - 1" by simp
  then have "(of_int (a * n) :: rat) \<le> of_int (3 * t - 1)" by (simp only: of_int_le_iff)
  then have "of_int a * of_int n \<le> (3 * of_int t - 1 :: rat)" by simp
  then have "of_int a / of_int t \<le> 3 / of_int n - 1 / (of_int n * of_int t :: rat)"
    using tpos npos by (simp add: field_simps)
  moreover have "1 / (of_int n * of_int B) \<le> 1 / (of_int n * of_int t :: rat)"
    using t tpos npos by (intro divide_left_mono mult_left_mono mult_pos_pos) simp_all
  ultimately show ?thesis by linarith
qed

lemma val_num_of_int: "val (i < 0) (of_int \<bar>i\<bar>) = of_int i"
  by (simp add: val_def)

lemma round_mag_int:
  assumes "0 < n" and "n < 2 ^ 53"
  shows "round_mag s (of_int n) = Num s (of_int n)"
proof -
  have "(of_int n :: rat) < of_int (2 ^ 53)" using assms(2) by (simp only: of_int_less_iff)
  also have "\<dots> = (2::rat) powi 53" by simp
  also have "\<dots> < 2 powi 1023" by (intro power_int_strict_increasing) simp_all
  finally have "round_mag s (of_int n) = Num s (rnd (of_int n))"
    using assms(1) by (intro round_mag_finite) simp_all
  then show ?thesis by (simp only: rnd_int [OF assms])
qed

lemma js_add_Num:
  assumes "val s m + val t n = of_int z" and "z \<noteq> 0" and "\<bar>z\<bar> < 2 ^ 53"
  shows "js_add (Num s m) (Num t n) = num_of_int z"
proof -
  have "js_add (Num s m) (Num t n) = round_mag (of_int z < (0::rat)) \<bar>of_int z\<bar>"
    using assms(2) by (simp add: assms(1) Let_def)
  also have "\<dots> = round_mag (z < 0) (of_int \<bar>z\<bar>)" by simp
  also have "\<dots> = Num (z < 0) (of_int \<bar>z\<bar>)"
    using assms(2,3) by (intro round_mag_int) simp_all
  finally show ?thesis by (simp add: num_of_int_def)
qed

lemma js_sub_int:
  assumes "\<bar>x - y\<bar> < 2 ^ 53"
  shows "js_sub (num_of_int x) (num_of_int y) = num_of_int (x - y)"
proof (cases "x = y")
  case True
  then show ?thesis by (simp add: js_sub_def num_of_int_def val_def)
next
  case False
  have v: "val (x < 0) (of_int \<bar>x\<bar>) + val (\<not> y < 0) (of_int \<bar>y\<bar>) = (of_int (x - y) :: rat)"
    by (simp add: val_def)
  have "js_add (Num (x < 0) (of_int \<bar>x\<bar>)) (Num (\<not> y < 0) (of_int \<bar>y\<bar>)) = num_of_int (x - y)"
    using v False assms by (intro js_add_Num) simp_all
  then show ?thesis by (simp add: js_sub_def num_of_int_def)
qed

lemma js_add_int:
  assumes "\<bar>x + y\<bar> < 2 ^ 53"
  shows "js_add (num_of_int x) (num_of_int y) = num_of_int (x + y)"
proof (cases "x + y = 0")
  case True
  then have "\<not> (x < 0 \<and> y < 0)" by linarith
  moreover have "val (x < 0) (of_int \<bar>x\<bar>) + val (y < 0) (of_int \<bar>y\<bar>) = (of_int (x + y) :: rat)"
    by (simp add: val_def)
  ultimately show ?thesis using True by (simp add: num_of_int_def Let_def)
next
  case False
  have v: "val (x < 0) (of_int \<bar>x\<bar>) + val (y < 0) (of_int \<bar>y\<bar>) = (of_int (x + y) :: rat)"
    by (simp add: val_def)
  have "js_add (Num (x < 0) (of_int \<bar>x\<bar>)) (Num (y < 0) (of_int \<bar>y\<bar>)) = num_of_int (x + y)"
    using v False assms by (intro js_add_Num) simp_all
  then show ?thesis by (simp add: num_of_int_def)
qed

lemma js_mul_nat:
  assumes "0 \<le> x" and "0 \<le> y" and "x * y < 2 ^ 53"
  shows "js_mul (num_of_int x) (num_of_int y) = num_of_int (x * y)"
proof (cases "x * y = 0")
  case True
  then show ?thesis using assms by (auto simp: num_of_int_def round_mag_def)
next
  case False
  with assms have pos: "0 < x * y" by (simp add: order.strict_iff_order)
  have "round_mag False (of_int (x * y)) = Num False (of_int (x * y))"
    by (rule round_mag_int [OF pos assms(3)])
  then show ?thesis using assms pos by (simp add: num_of_int_def)
qed

lemma js_lt_int: "js_lt (num_of_int i) (num_of_int j) \<longleftrightarrow> i < j"
  by (simp add: num_of_int_def val_def)

lemma js_floor_div_int:
  assumes "0 \<le> d" and "d < 2 ^ 53" and "0 < k" and "k < 2 ^ 53"
  shows "js_floor (js_div (num_of_int d) (num_of_int k)) = num_of_int (d div k)"
proof (cases "d = 0")
  case True
  then show ?thesis using assms(3) by (simp add: num_of_int_def round_mag_def val_def)
next
  case False
  with assms(1) have d: "0 < d" by simp
  have k: "k \<le> 2 ^ 53" using assms(4) by simp
  have q: "(0::rat) < of_int d / of_int k" using d assms(3) by simp
  have "rnd (of_int d / of_int k) < 2 powi 53"
    by (rule quotient_rounds_positive(2) [OF d assms(2,3,4)])
  also have "\<dots> < (2::rat) powi 1024" by (intro power_int_strict_increasing) simp_all
  finally have "round_mag False (of_int d / of_int k) = Num False (rnd (of_int d / of_int k))"
    using q d assms(3) by (simp add: round_mag_def)
  then have "js_div (num_of_int d) (num_of_int k) = Num False (rnd (of_int d / of_int k))"
    using d assms(3) by (simp add: num_of_int_def)
  moreover have "\<lfloor>rnd (of_int d / of_int k)\<rfloor> = d div k"
    by (rule floor_rnd_div [OF d assms(2,3) k])
  moreover have "0 \<le> d div k" using d assms(3) by (simp add: pos_imp_zdiv_nonneg_iff)
  ultimately show ?thesis by (simp add: val_def num_of_int_def Let_def)
qed

lemma js_ceil_div_int:
  assumes "0 \<le> d" and "d < 2 ^ 53" and "0 < k" and "k < 2 ^ 53"
  shows "js_ceil (js_div (num_of_int d) (num_of_int k)) =
         num_of_int (if d mod k = 0 then d div k else d div k + 1)"
proof (cases "d = 0")
  case True
  then show ?thesis using assms(3) by (simp add: num_of_int_def round_mag_def val_def)
next
  case False
  with assms(1) have d: "0 < d" by simp
  have k: "k \<le> 2 ^ 53" using assms(4) by simp
  have q: "(0::rat) < of_int d / of_int k" using d assms(3) by simp
  have "rnd (of_int d / of_int k) < 2 powi 53"
    by (rule quotient_rounds_positive(2) [OF d assms(2,3,4)])
  also have "\<dots> < (2::rat) powi 1024" by (intro power_int_strict_increasing) simp_all
  finally have "round_mag False (of_int d / of_int k) = Num False (rnd (of_int d / of_int k))"
    using q d assms(3) by (simp add: round_mag_def)
  then have "js_div (num_of_int d) (num_of_int k) = Num False (rnd (of_int d / of_int k))"
    using d assms(3) by (simp add: num_of_int_def)
  moreover have "\<lceil>rnd (of_int d / of_int k)\<rceil> = (if d mod k = 0 then d div k else d div k + 1)"
    by (rule ceiling_rnd_div [OF d assms(2,3) k])
  moreover have "0 \<le> d div k" using d assms(3) by (simp add: pos_imp_zdiv_nonneg_iff)
  ultimately show ?thesis by (simp add: val_def num_of_int_def Let_def)
qed

lemma number_to_string_int:
  assumes "0 \<le> n" and "n < 10 ^ 21"
  shows "number_to_string (num_of_int n) = Some (digits (nat n))"
proof -
  have "(of_int n :: rat) < of_int (10 ^ 21)" using assms(2) by (simp only: of_int_less_iff)
  then have "(of_int n :: rat) < 10 ^ 21" by simp
  then show ?thesis using assms(1) by (simp add: num_of_int_def)
qed

section \<open>Properties of the hospital view\<close>

lemma starts_at_iff: "starts_at t s \<longleftrightarrow> (\<exists>after. t = s @ after)"
  by (induction t s rule: starts_at.induct) auto

lemma includes_iff: "includes' t s \<longleftrightarrow> (\<exists>before after. t = before @ s @ after)"
proof (induction t)
  case Nil
  then show ?case by auto
next
  case (Cons d t)
  show ?case
  proof
    assume "includes' (d # t) s"
    then consider "starts_at (d # t) s" | "includes' t s" by auto
    then show "\<exists>before after. d # t = before @ s @ after"
    proof cases
      case 1
      then obtain after where "d # t = s @ after" unfolding starts_at_iff by blast
      then have "d # t = [] @ s @ after" by simp
      then show ?thesis by blast
    next
      case 2
      then obtain before after where "t = before @ s @ after" using Cons.IH by blast
      then have "d # t = (d # before) @ s @ after" by simp
      then show ?thesis by blast
    qed
  next
    assume "\<exists>before after. d # t = before @ s @ after"
    then obtain before after where eq: "d # t = before @ s @ after" by blast
    show "includes' (d # t) s"
    proof (cases before)
      case Nil
      with eq have "starts_at (d # t) s" unfolding starts_at_iff by auto
      then show ?thesis by simp
    next
      case (Cons b bs)
      with eq have "t = bs @ s @ after" by simp
      then have "includes' t s" using Cons.IH by blast
      then show ?thesis by simp
    qed
  qed
qed

lemma code_ascii_lower_char:
  "(of_char (ascii_lower_char c) :: nat) =
     (if 65 \<le> (of_char c :: nat) \<and> (of_char c :: nat) \<le> 90 then of_char c + 32
      else of_char c)"
proof (cases "65 \<le> (of_char c :: nat) \<and> (of_char c :: nat) \<le> 90")
  case True
  then have "(of_char c + 32 :: nat) mod 256 = of_char c + 32" by (intro mod_less) simp
  with True show ?thesis by (simp add: ascii_lower_char_def)
next
  case False
  then show ?thesis by (auto simp: ascii_lower_char_def)
qed

lemma same_ignoring_case_iff:
  "same_ignoring_case c d \<longleftrightarrow> ascii_lower_char c = ascii_lower_char d"
proof -
  define x y where "x = (of_char c :: nat)" and "y = (of_char d :: nat)"
  have arith: "(x = y \<or> 65 \<le> x \<and> x \<le> 90 \<and> y = x + 32 \<or> 65 \<le> y \<and> y \<le> 90 \<and> x = y + 32) \<longleftrightarrow>
        (if 65 \<le> x \<and> x \<le> 90 then x + 32 else x) =
        (if 65 \<le> y \<and> y \<le> 90 then y + 32 else y)"
    by (cases "65 \<le> x \<and> x \<le> 90"; cases "65 \<le> y \<and> y \<le> 90") auto
  have l: "ascii_lower_char c = ascii_lower_char d \<longleftrightarrow>
        (of_char (ascii_lower_char c) :: nat) = of_char (ascii_lower_char d)"
    by simp
  have e: "c = d \<longleftrightarrow> x = y" by (simp add: x_def y_def)
  show ?thesis
    unfolding same_ignoring_case_def l code_ascii_lower_char e
    unfolding x_def [symmetric] y_def [symmetric] by (rule arith)
qed

lemma list_all2_same_ignoring_case:
  "list_all2 same_ignoring_case part t \<longleftrightarrow> ascii_lower part = ascii_lower t"
proof (induction part arbitrary: t)
  case Nil
  then show ?case by (simp add: ascii_lower_def)
next
  case (Cons c part)
  show ?case
  proof (cases t)
    case Nil
    then show ?thesis by (simp add: ascii_lower_def)
  next
    case (Cons d rest)
    then show ?thesis
      using Cons.IH [of rest] by (simp add: ascii_lower_def same_ignoring_case_iff)
  qed
qed

lemma includes_ascii_lower:
  "includes' (ascii_lower field) (ascii_lower t) \<longleftrightarrow> contains_ignoring_case field t"
proof
  assume "includes' (ascii_lower field) (ascii_lower t)"
  then obtain b a where "map ascii_lower_char field = b @ (map ascii_lower_char t @ a)"
    unfolding includes_iff ascii_lower_def by blast
  then have "\<exists>us vs. field = us @ vs \<and> b = map ascii_lower_char us \<and>
                 map ascii_lower_char t @ a = map ascii_lower_char vs"
    by (simp only: map_eq_append_conv)
  then obtain before rest where f1: "field = before @ rest"
    and r: "map ascii_lower_char rest = map ascii_lower_char t @ a"
    by auto
  from r have "\<exists>us vs. rest = us @ vs \<and> map ascii_lower_char t = map ascii_lower_char us \<and>
                 a = map ascii_lower_char vs"
    by (simp only: map_eq_append_conv)
  then obtain part after where f2: "rest = part @ after"
    and eq: "map ascii_lower_char part = map ascii_lower_char t"
    by auto
  from eq have "list_all2 same_ignoring_case part t"
    by (simp add: list_all2_same_ignoring_case ascii_lower_def)
  with f1 f2 show "contains_ignoring_case field t"
    unfolding contains_ignoring_case_def by blast
next
  assume "contains_ignoring_case field t"
  then obtain before part after where f: "field = before @ part @ after"
    and "list_all2 same_ignoring_case part t"
    unfolding contains_ignoring_case_def by blast
  then have "ascii_lower part = ascii_lower t"
    by (simp add: list_all2_same_ignoring_case)
  then have "ascii_lower field = ascii_lower before @ ascii_lower t @ ascii_lower after"
    using f by (simp add: ascii_lower_def)
  then show "includes' (ascii_lower field) (ascii_lower t)"
    unfolding includes_iff by blast
qed

lemma contains_ignoring_case_empty: "contains_ignoring_case field []"
proof -
  have "field = [] @ [] @ field \<and> list_all2 same_ignoring_case [] []" by simp
  then show ?thesis unfolding contains_ignoring_case_def by blast
qed

text \<open>
  C5. When \<open>toLowerCase\<close> acts on the search term and on the names and
  districts of the collection as ASCII lower-casing does, the filtered collection
  after the filter effect consists of exactly the hospitals whose name or district
  contains the search term as a case-insensitive substring, in their original order
  and multiplicity.
\<close>

theorem filtered_hospitals_ignoring_case:
  assumes "lc (searchTerm st) = ascii_lower (searchTerm st)"
    and "\<forall>h \<in> set (hospitals st).
           lc (name h) = ascii_lower (name h) \<and> lc (district h) = ascii_lower (district h)"
  shows "filteredHospitals (filter_effect lc st) =
           filter (\<lambda>h. contains_ignoring_case (name h) (searchTerm st) \<or>
                        contains_ignoring_case (district h) (searchTerm st)) (hospitals st)
         \<and> set (filteredHospitals (filter_effect lc st)) =
           {h \<in> set (hospitals st).
              contains_ignoring_case (name h) (searchTerm st) \<or>
              contains_ignoring_case (district h) (searchTerm st)}"
proof -
  have "filter_hospitals lc (searchTerm st) (hospitals st) =
        filter (\<lambda>h. contains_ignoring_case (name h) (searchTerm st) \<or>
                     contains_ignoring_case (district h) (searchTerm st)) (hospitals st)"
  proof (cases "searchTerm st = []")
    case True
    then show ?thesis
      by (simp add: filter_hospitals_def contains_ignoring_case_empty)
  next
    case False
    have "matches lc (searchTerm st) h \<longleftrightarrow>
          contains_ignoring_case (name h) (searchTerm st) \<or>
          contains_ignoring_case (district h) (searchTerm st)"
      if "h \<in> set (hospitals st)" for h
      using assms that by (simp add: matches_def includes_ascii_lower)
    then have "filter (matches lc (searchTerm st)) (hospitals st) =
          filter (\<lambda>h. contains_ignoring_case (name h) (searchTerm st) \<or>
                       contains_ignoring_case (district h) (searchTerm st)) (hospitals st)"
      by (intro filter_cong refl)
    with False show ?thesis by (simp add: filter_hospitals_def)
  qed
  then show ?thesis by (simp add: filter_effect_def)
qed

theorem filtered_hospitals_ignoring_case_witness:
  "ascii_lower (searchTerm searching_mum) = ascii_lower (searchTerm searching_mum)
   \<and> hospitals searching_mum = [city_general, regional_medical]
   \<and> filter (\<lambda>h. contains_ignoring_case (name h) ''MUM'' \<or>
                   contains_ignoring_case (district h) ''MUM'')
        [city_general, regional_medical] = [city_general]"
proof -
  have run: "filteredHospitals (filter_effect ascii_lower searching_mum) = [city_general]"
    unfolding searching_mum_def city_general_def regional_medical_def by code_simp
  have "filteredHospitals (filter_effect ascii_lower searching_mum) =
          filter (\<lambda>h. contains_ignoring_case (name h) (searchTerm searching_mum) \<or>
                       contains_ignoring_case (district h) (searchTerm searching_mum))
            (hospitals searching_mum)"
    using filtered_hospitals_ignoring_case [of ascii_lower searching_mum] by blast
  then have "filter (\<lambda>h. contains_ignoring_case (name h) ''MUM'' \<or>
                          contains_ignoring_case (district h) ''MUM'')
               [city_general, regional_medical] = [city_general]"
    unfolding run by (simp add: searching_mum_def)
  then show ?thesis by (simp add: searching_mum_def)
qed

text \<open>
  Without that condition the filter compares the lower-cased strings, which is a
  different relation: a capital sigma at the end of the term is lower-cased to the
  final form, inside the name to the medial form, and the hospital whose name begins
  with the term as typed is dropped.
\<close>

lemma greek_lower_term:
  "greek_lower [CHR 0xCE, CHR 0x91, CHR 0xCE, CHR 0xA3] = [CHR 0xCE, CHR 0xB1, CHR 0xCF, CHR 0x82]"
  by code_simp

lemma greek_lower_name:
  "greek_lower (name asklepieio) =
     [CHR 0xCE, CHR 0xB1, CHR 0xCF, CHR 0x83, CHR 0xCE, CHR 0xBA, CHR 0xCE, CHR 0xBB,
      CHR 0xCE, CHR 0xB7, CHR 0xCF, CHR 0x80, CHR 0xCE, CHR 0xB9, CHR 0xCE, CHR 0xB5,
      CHR 0xCE, CHR 0xB9, CHR 0xCE, CHR 0xBF]"
  unfolding asklepieio_def by code_simp

lemma greek_lower_district: "greek_lower (district asklepieio) = ''attica''"
  unfolding asklepieio_def by code_simp

theorem filter_drops_verbatim_match_counterexample:
  "hospitals searching_alpha_sigma = [asklepieio]
   \<and> contains_ignoring_case (name asklepieio) (searchTerm searching_alpha_sigma)
   \<and> filteredHospitals (filter_effect greek_lower searching_alpha_sigma) = []"
proof -
  have "name asklepieio =
        [] @ searchTerm searching_alpha_sigma @
        [CHR 0xCE, CHR 0x9A, CHR 0xCE, CHR 0x9B, CHR 0xCE, CHR 0x97, CHR 0xCE, CHR 0xA0,
         CHR 0xCE, CHR 0x99, CHR 0xCE, CHR 0x95, CHR 0xCE, CHR 0x99, CHR 0xCE, CHR 0x9F]"
    by (simp add: asklepieio_def searching_alpha_sigma_def)
  moreover have "list_all2 same_ignoring_case (searchTerm searching_alpha_sigma)
                   (searchTerm searching_alpha_sigma)"
    by (simp add: list_all2_same_ignoring_case)
  ultimately have c: "contains_ignoring_case (name asklepieio) (searchTerm searching_alpha_sigma)"
    unfolding contains_ignoring_case_def by blast
  have "\<not> matches greek_lower [CHR 0xCE, CHR 0x91, CHR 0xCE, CHR 0xA3] asklepieio"
    by (simp add: matches_def greek_lower_term greek_lower_name greek_lower_district)
  then have "filteredHospitals (filter_effect greek_lower searching_alpha_sigma) = []"
    by (simp add: filter_effect_def filter_hospitals_def searching_alpha_sigma_def)
  with c show ?thesis by (simp add: searching_alpha_sigma_def)
qed

text \<open>
  C6. The text filter of the hospital view is idempotent, and the empty search term
  returns the collection itself, unchanged and in its original order.
\<close>

theorem filter_hospitals_idempotent_empty_identity:
  "filter_hospitals lc term (filter_hospitals lc term hs) = filter_hospitals lc term hs
   \<and> filter_hospitals lc [] hs = hs"
  by (simp add: filter_hospitals_def)

text \<open>
  C8. When a fetch of the hospital view fails (the request or the decoding of the
  body is rejected, or the body says \<open>success: false\<close>) the error state holds a
  non-empty message afterwards, and neither the raw nor the filtered hospital
  collection has changed.
\<close>

theorem fetchHospitals_failure:
  assumes "outcome = NetworkFailure \<or> outcome = MalformedBody \<or>
           (\<exists>result. outcome = Body result \<and> \<not> success result)"
  shows "(\<exists>msg. error (fetchHospitals outcome st) = Some msg \<and> msg \<noteq> [])
         \<and> hospitals (fetchHospitals outcome st) = hospitals st
         \<and> filteredHospitals (fetchHospitals outcome st) = filteredHospitals st"
  using assms
  by (auto simp: fetchHospitals_def error_or_default_def split: option.splits)

theorem fetchHospitals_failure_witness:
  "\<not> success \<lparr>success = False, data = [], result_error = Some ''database offline''\<rparr>
   \<and> error (fetchHospitals
        (Body \<lparr>success = False, data = [], result_error = Some ''database offline''\<rparr>)
        initial_dashboard) = Some ''database offline''
   \<and> hospitals (fetchHospitals
        (Body \<lparr>success = False, data = [], result_error = Some ''database offline''\<rparr>)
        initial_dashboard) = hospitals initial_dashboard"
proof -
  let ?r = "\<lparr>success = False, data = [], result_error = Some ''database offline''\<rparr>"
  have "Body ?r = NetworkFailure \<or> Body ?r = MalformedBody \<or>
        (\<exists>result. Body ?r = Body result \<and> \<not> success result)"
    by simp
  from fetchHospitals_failure [OF this, of initial_dashboard]
  show ?thesis by (simp add: fetchHospitals_def error_or_default_def)
qed

lemma percentage_lt:
  fixes a t :: int
  assumes a: "0 < a" "a < 2 ^ 53" and t: "0 < t" "t < 2 ^ 53"
    and le: "(of_int a :: rat) / of_int t \<le> m" and ev: "rnd (rnd m * 100) < c"
  shows "rnd (rnd (of_int a / of_int t) * 100) < c"
proof -
  have q: "(0::rat) < of_int a / of_int t" using a(1) t(1) by simp
  have "rnd (of_int a / of_int t) \<le> rnd m" using q le by (rule rnd_mono)
  then have "rnd (of_int a / of_int t) * 100 \<le> rnd m * 100" by simp
  moreover have "0 < rnd (of_int a / of_int t) * 100"
    using quotient_rounds_positive(1) [OF a t] by simp
  ultimately have "rnd (rnd (of_int a / of_int t) * 100) \<le> rnd (rnd m * 100)"
    by (rule rnd_mono [rotated])
  with ev show ?thesis by linarith
qed

lemma percentage_lt_30:
  fixes a t :: int
  assumes a: "0 < a" "a < 2 ^ 53" and t: "0 < t" "t \<le> 2573485501354569"
    and r: "(of_int a :: rat) / of_int t < 3 / 10"
  shows "rnd (rnd (of_int a / of_int t) * 100) < 30"
proof -
  have t53: "t < 2 ^ 53" using t(2) by simp
  have "(of_int a :: rat) / of_int t \<le> 3 / of_int 10 - 1 / (of_int 10 * of_int 2573485501354569)"
    using t r by (intro below_threshold) simp_all
  then have le: "(of_int a :: rat) / of_int t \<le> 3 / 10 - 1 / (10 * 2573485501354569)" by simp
  have "rnd (rnd (3 / 10 - 1 / (10 * 2573485501354569)) * 100) < 30"
    by (simp only: m30 m30p)
  with le show ?thesis by (rule percentage_lt [OF a t(1) t53])
qed

lemma percentage_lt_15:
  fixes a t :: int
  assumes a: "0 < a" "a < 2 ^ 53" and t: "0 < t" "t \<le> 2573485501354569"
    and r: "(of_int a :: rat) / of_int t < 3 / 20"
  shows "rnd (rnd (of_int a / of_int t) * 100) < 15"
proof -
  have t53: "t < 2 ^ 53" using t(2) by simp
  have "(of_int a :: rat) / of_int t \<le> 3 / of_int 20 - 1 / (of_int 20 * of_int 2573485501354569)"
    using t r by (intro below_threshold) simp_all
  then have le: "(of_int a :: rat) / of_int t \<le> 3 / 20 - 1 / (20 * 2573485501354569)" by simp
  have "rnd (rnd (3 / 20 - 1 / (20 * 2573485501354569)) * 100) < 15"
    by (simp only: m15 m15p)
  with le show ?thesis by (rule percentage_lt [OF a t(1) t53])
qed

lemma js_ge_Num: "js_ge (Num False p) (num_of_int n) \<longleftrightarrow> of_int n \<le> p" if "0 \<le> n"
  using that by (auto simp: js_ge_def num_of_int_def val_def)

lemma status_cases:
  "status (getAvailabilityStatus x y) =
     (let p = js_mul (js_div x y) (num_of_int 100)
      in if js_ge p (num_of_int 30) then ''good''
         else if js_ge p (num_of_int 15) then ''moderate'' else ''critical'')"
  by (simp add: getAvailabilityStatus_def Let_def)

text \<open>
  C1. For whole bed counts with \<open>0 < totalBeds \<le> 2573485501354569\<close> and
  \<open>0 \<le> availableBeds < 2\<^sup>5\<^sup>3\<close> the status follows the exact ratio
  \<open>availableBeds / totalBeds\<close>: \<open>good\<close> from 0.30 on, \<open>moderate\<close> from 0.15 up to but
  not including 0.30, \<open>critical\<close> below 0.15; the ratios 0.30 and 0.15 themselves get
  the higher tier.
\<close>

theorem availability_status_by_ratio:
  fixes a t :: int
  assumes "0 \<le> a" and "a < 2 ^ 53" and "0 < t" and "t \<le> 2573485501354569"
  shows "status (getAvailabilityStatus (num_of_int a) (num_of_int t)) =
           (if 30 / 100 \<le> (of_int a / of_int t :: rat) then ''good''
            else if 15 / 100 \<le> (of_int a / of_int t :: rat) then ''moderate''
            else ''critical'')"
proof (cases "a = 0")
  case True
  have "js_mul (js_div (num_of_int 0) (num_of_int t)) (num_of_int 100) = Num False 0"
    using assms(3) by (simp add: num_of_int_def round_mag_def)
  then show ?thesis
    using True by (simp add: status_cases js_ge_Num)
next
  case False
  with assms(1) have a: "0 < a" by simp
  have t53: "t < 2 ^ 53" using assms(4) by simp
  define p where "p = rnd (rnd (of_int a / of_int t) * 100)"
  have pe: "js_mul (js_div (num_of_int a) (num_of_int t)) (num_of_int 100) = Num False p"
    unfolding p_def by (rule percentage_eq [OF a assms(2,3) t53])
  have st: "status (getAvailabilityStatus (num_of_int a) (num_of_int t)) =
            (if 30 \<le> p then ''good'' else if 15 \<le> p then ''moderate'' else ''critical'')"
    by (simp add: status_cases pe js_ge_Num)
  have g: "30 \<le> p \<longleftrightarrow> 3 / 10 \<le> (of_int a / of_int t :: rat)"
    using percentage_ge_30 [OF a assms(2,3) t53] percentage_lt_30 [OF a assms(2,3,4)]
    unfolding p_def by (cases "3 / 10 \<le> (of_int a / of_int t :: rat)") (simp_all add: not_le)
  have m: "15 \<le> p \<longleftrightarrow> 3 / 20 \<le> (of_int a / of_int t :: rat)"
    using percentage_ge_15 [OF a assms(2,3) t53] percentage_lt_15 [OF a assms(2,3,4)]
    unfolding p_def by (cases "3 / 20 \<le> (of_int a / of_int t :: rat)") (simp_all add: not_le)
  show ?thesis unfolding st g m by simp
qed

theorem availability_status_by_ratio_witness:
  "(0::int) \<le> 20 \<and> (20::int) < 2 ^ 53 \<and> (0::int) < 100 \<and> (100::int) \<le> 2573485501354569
   \<and> status (getAvailabilityStatus (num_of_int 10) (num_of_int 100)) = ''critical''
   \<and> status (getAvailabilityStatus (num_of_int 15) (num_of_int 100)) = ''moderate''
   \<and> status (getAvailabilityStatus (num_of_int 20) (num_of_int 100)) = ''moderate''
   \<and> status (getAvailabilityStatus (num_of_int 30) (num_of_int 100)) = ''good''
   \<and> status (getAvailabilityStatus (num_of_int 40) (num_of_int 100)) = ''good''"
  using availability_status_by_ratio [of 10 100] availability_status_by_ratio [of 15 100]
    availability_status_by_ratio [of 20 100] availability_status_by_ratio [of 30 100]
    availability_status_by_ratio [of 40 100]
  by simp

text \<open>
  Eight beds above that bound the rounding of the quotient decides: the ratio is below
  0.30, the quotient rounds to the double nearest to 0.3, and its product with 100
  rounds to 30.
\<close>

lemma rnd_ratio_above_bound:
  "rnd (772045650406373 / 2573485501354577) = 5404319552844595 / 18014398509481984"
  by code_simp

theorem availability_status_ratio_counterexample:
  "(0::int) < 2573485501354577
   \<and> (772045650406373 / 2573485501354577 :: rat) < 30 / 100
   \<and> status (getAvailabilityStatus (num_of_int 772045650406373)
        (num_of_int 2573485501354577)) = ''good''"
proof -
  have "rnd (rnd (772045650406373 / 2573485501354577) * 100) = 30"
    by (simp only: rnd_ratio_above_bound c30p)
  then have "js_mul (js_div (num_of_int 772045650406373) (num_of_int 2573485501354577))
               (num_of_int 100) = Num False 30"
    using percentage_eq [of 772045650406373 2573485501354577] by simp
  then show ?thesis by (simp add: status_cases js_ge_Num)
qed

text \<open>
  C9. With \<open>totalBeds = 0\<close> the function still returns a status: for
  \<open>availableBeds = 0\<close> the percentage is \<open>NaN\<close>, which fails both comparisons, and the
  status is \<open>critical\<close>; for a positive \<open>availableBeds\<close> the percentage is
  \<open>+Infinity\<close> and the status is \<open>good\<close>.
\<close>

theorem availability_status_zero_total:
  "js_mul (js_div (num_of_int 0) (num_of_int 0)) (num_of_int 100) = NaN
   \<and> status (getAvailabilityStatus (num_of_int 0) (num_of_int 0)) = ''critical''
   \<and> (0 < a \<longrightarrow>
        js_mul (js_div (num_of_int a) (num_of_int 0)) (num_of_int 100) = Infinity False
        \<and> status (getAvailabilityStatus (num_of_int a) (num_of_int 0)) = ''good'')"
  by (simp add: status_cases num_of_int_def js_ge_def)

theorem availability_status_zero_total_witness:
  "(0::int) < 25 \<and> status (getAvailabilityStatus (num_of_int 25) (num_of_int 0)) = ''good''"
  using availability_status_zero_total [of 25] by simp

section \<open>Properties of the medicine view\<close>

text \<open>
  C10. For an availability outside \<open>high\<close>, \<open>moderate\<close> and \<open>low\<close> the two badge
  lookups take their default branch: the colour is \<open>bg-gray-500\<close> and the text is
  \<open>Unknown\<close>.
\<close>

theorem availability_badge_default:
  assumes "availability \<notin> {''high'', ''moderate'', ''low''}"
  shows "getAvailabilityColor availability = ''bg-gray-500''
         \<and> getAvailabilityText availability = ''Unknown''"
  using assms by (simp add: getAvailabilityColor_def getAvailabilityText_def)

theorem availability_badge_default_witness:
  "''discontinued'' \<notin> {''high'', ''moderate'', ''low''}
   \<and> getAvailabilityColor ''discontinued'' = ''bg-gray-500''
   \<and> getAvailabilityText ''discontinued'' = ''Unknown''"
proof -
  have "''discontinued'' \<notin> {''high'', ''moderate'', ''low''}" by simp
  from availability_badge_default [OF this] this show ?thesis by simp
qed

lemma not_NaN_num_of_int: "\<not> is_NaN (num_of_int k)"
  by (simp add: num_of_int_def)

lemma js_max_int: "js_max (num_of_int i) (num_of_int j) = num_of_int (max i j)"
proof -
  consider "i < j" | "j < i" | "i = j" by linarith
  then show ?thesis
  proof cases
    case 1
    then show ?thesis by (simp add: js_max_def js_lt_int not_NaN_num_of_int)
  next
    case 2
    then show ?thesis by (simp add: js_max_def js_lt_int not_NaN_num_of_int)
  next
    case 3
    have "js_max (num_of_int j) (num_of_int j) =
          (case (num_of_int j, num_of_int j) of
             (Num s m, Num t n) \<Rightarrow> Num (s \<and> t) m | _ \<Rightarrow> num_of_int j)"
      by (simp add: js_max_def js_lt_int not_NaN_num_of_int)
    also have "\<dots> = num_of_int j" by (simp add: num_of_int_def)
    finally show ?thesis using 3 by simp
  qed
qed

lemma js_min_int: "js_min (num_of_int i) (num_of_int j) = num_of_int (min i j)"
proof -
  consider "i < j" | "j < i" | "i = j" by linarith
  then show ?thesis
  proof cases
    case 1
    then show ?thesis by (simp add: js_min_def js_lt_int not_NaN_num_of_int)
  next
    case 2
    then show ?thesis by (simp add: js_min_def js_lt_int not_NaN_num_of_int)
  next
    case 3
    have "js_min (num_of_int j) (num_of_int j) =
          (case (num_of_int j, num_of_int j) of
             (Num s m, Num t n) \<Rightarrow> Num (s \<or> t) m | _ \<Rightarrow> num_of_int j)"
      by (simp add: js_min_def js_lt_int not_NaN_num_of_int)
    also have "\<dots> = num_of_int j" by (simp add: num_of_int_def)
    finally show ?thesis using 3 by simp
  qed
qed

lemma relative_index_int:
  "0 \<le> i \<Longrightarrow> relative_index len (num_of_int i) = nat (min i (int len))"
  by (simp add: relative_index_def num_of_int_def)

lemma slice_int:
  assumes "0 \<le> i" and "0 \<le> j"
  shows "slice xs (num_of_int i) (num_of_int j) =
         take (nat (min j (int (length xs))) - nat (min i (int (length xs))))
           (drop (nat (min i (int (length xs)))) xs)"
  using assms by (simp add: slice_def relative_index_int Let_def)

lemma take_drop_nth:
  assumes "b \<le> length xs"
  shows "take (b - a) (drop a xs) = map ((!) xs) [a..<b]"
proof (rule nth_equalityI)
  show "length (take (b - a) (drop a xs)) = length (map ((!) xs) [a..<b])"
    using assms by simp
next
  fix i
  assume "i < length (take (b - a) (drop a xs))"
  then have i: "i < b - a" by simp
  with assms show "take (b - a) (drop a xs) ! i = map ((!) xs) [a..<b] ! i"
    by simp
qed

lemma ceiling_div_6:
  fixes d :: int
  shows "\<lceil>(of_int d :: rat) / 6\<rceil> = (if d mod 6 = 0 then d div 6 else d div 6 + 1)"
proof -
  have "\<lceil>(of_int d :: rat) / of_int 6\<rceil> = - ((- d) div 6)"
    by (simp only: ceiling_divide_eq_div)
  then show ?thesis by (simp add: zdiv_zminus1_eq_if)
qed

lemma totalPages_eq:
  assumes "length (elements (filteredMedicines st)) < 2 ^ 32"
  shows "totalPages st = num_of_int \<lceil>(of_nat (length (elements (filteredMedicines st))) :: rat) / 6\<rceil>"
proof -
  define d where "d = int (length (elements (filteredMedicines st)))"
  have d: "0 \<le> d" "d < 2 ^ 53"
  proof -
    show "0 \<le> d" by (simp add: d_def)
    have "int (length (elements (filteredMedicines st))) < int (2 ^ 32)"
      using assms by (simp only: of_nat_less_iff)
    then have "d < 2 ^ 32" by (simp add: d_def)
    then show "d < 2 ^ 53" by simp
  qed
  have "js_ceil (js_div (num_of_int d) (num_of_int 6)) =
        num_of_int (if d mod 6 = 0 then d div 6 else d div 6 + 1)"
    using d by (intro js_ceil_div_int) simp_all
  moreover have "(of_nat (length (elements (filteredMedicines st))) :: rat) = of_int d"
    by (simp add: d_def)
  ultimately show ?thesis
    by (simp only: totalPages_def array_length_def itemsPerPage_def ceiling_div_6 d_def [symmetric])
qed

lemma page_bounds:
  fixes n :: nat and P p :: int
  assumes P: "P = \<lceil>(of_nat n :: rat) / 6\<rceil>" and p: "1 \<le> p" "p \<le> P"
  shows "6 * (p - 1) < int n" and "int n \<le> 6 * P" and "6 * (P - 1) < int n"
proof -
  have "(of_nat n :: rat) = of_int (int n)" by simp
  then have "P = (if int n mod 6 = 0 then int n div 6 else int n div 6 + 1)"
    unfolding P by (simp only: ceiling_div_6)
  then have b: "int n \<le> 6 * P" "6 * (P - 1) < int n \<or> P \<le> 0"
    by (auto split: if_splits) presburger+
  show "int n \<le> 6 * P" by (rule b(1))
  show last: "6 * (P - 1) < int n" using b(2) p by presburger
  then show "6 * (p - 1) < int n" using p by presburger
qed

lemma page_indices:
  assumes n: "int (length (elements (filteredMedicines st))) < 2 ^ 32"
    and p: "1 \<le> p" "p \<le> int (length (elements (filteredMedicines st)))"
    and cur: "currentPage st = num_of_int p"
  shows "startIndex st = num_of_int (6 * (p - 1))" and "endIndex st = num_of_int (6 * p)"
proof -
  have "js_sub (num_of_int p) (num_of_int 1) = num_of_int (p - 1)"
    using n p by (intro js_sub_int) simp
  moreover have "js_mul (num_of_int (p - 1)) (num_of_int 6) = num_of_int ((p - 1) * 6)"
    using n p by (intro js_mul_nat) simp_all
  ultimately show s: "startIndex st = num_of_int (6 * (p - 1))"
    by (simp add: startIndex_def itemsPerPage_def cur mult.commute)
  have "js_add (num_of_int (6 * (p - 1))) (num_of_int 6) = num_of_int (6 * (p - 1) + 6)"
    using n p by (intro js_add_int) simp
  then show "endIndex st = num_of_int (6 * p)"
    by (simp add: endIndex_def s itemsPerPage_def algebra_simps)
qed

lemma nat_min_int: "nat (min a (int m)) = min (nat a) m"
  by (cases "a \<le> int m") (simp_all add: min_def nat_le_iff le_nat_iff)

text \<open>
  C2. For the filtered collection \<open>xs\<close> of \<open>n\<close> medicines (an array has fewer than
  \<open>2\<^sup>3\<^sup>2\<close> elements) the number of pages is \<open>P = \<lceil>n / 6\<rceil>\<close>. On a page \<open>p\<close> between
  1 and \<open>P\<close> the view shows the elements at the indices \<open>6 (p - 1)\<close> up to
  \<open>min (6 p) n - 1\<close>, so the last page has \<open>n - 6 (P - 1)\<close> of them; Previous and Next
  lead to \<open>max (p - 1) 1\<close> and \<open>min (p + 1) P\<close>, which lie between 1 and \<open>P\<close>, and
  Next on the last page stays there. When the filtered array of a render is not the
  array of the previous render, the effect sets the page to 1.
\<close>

theorem medicine_pagination:
  fixes st st' :: medicine_stock and xs :: "medicine list" and n :: nat and P p :: int
  assumes xs: "xs = elements (filteredMedicines st)" and n: "n = length xs"
    and P: "P = \<lceil>(of_nat n :: rat) / 6\<rceil>" and len: "n < 2 ^ 32"
  shows "totalPages st = num_of_int P
    \<and> (1 \<le> p \<and> p \<le> P \<and> currentPage st = num_of_int p \<longrightarrow>
          currentMedicines st = map ((!) xs) [nat (6 * (p - 1))..<min (nat (6 * p)) n]
        \<and> (p = P \<longrightarrow> int (length (currentMedicines st)) = int n - 6 * (P - 1))
        \<and> currentPage (previous_page st) = num_of_int (max (p - 1) 1)
        \<and> currentPage (next_page st) = num_of_int (min (p + 1) P)
        \<and> 1 \<le> max (p - 1) 1 \<and> max (p - 1) 1 \<le> P
        \<and> 1 \<le> min (p + 1) P \<and> min (p + 1) P \<le> P
        \<and> (p = P \<longrightarrow> currentPage (next_page st) = num_of_int P))
    \<and> (identity (filteredMedicines st') \<noteq> identity (filteredMedicines st) \<longrightarrow>
          currentPage (page_reset_effect st st') = num_of_int 1)"
proof (intro conjI impI)
  show tp: "totalPages st = num_of_int P"
    using totalPages_eq [of st] len unfolding xs n P by simp
  show "currentPage (page_reset_effect st st') = num_of_int 1"
    if "identity (filteredMedicines st') \<noteq> identity (filteredMedicines st)"
    using that by (simp add: page_reset_effect_def)
next
  assume h: "1 \<le> p \<and> p \<le> P \<and> currentPage st = num_of_int p"
  then have p: "1 \<le> p" "p \<le> P" and cur: "currentPage st = num_of_int p" by simp_all
  have tp: "totalPages st = num_of_int P"
    using totalPages_eq [of st] len unfolding xs n P by simp
  note b = page_bounds [OF P p]
  have n32: "int (length (elements (filteredMedicines st))) < 2 ^ 32"
  proof -
    have "int n < int (2 ^ 32)" using len by (simp only: of_nat_less_iff)
    then show ?thesis by (simp add: n xs)
  qed
  have pn: "p \<le> int (length (elements (filteredMedicines st)))"
    using b(1) p(1) unfolding n xs by presburger
  note idx = page_indices [OF n32 p(1) pn cur]
  have lo: "nat (min (6 * (p - 1)) (int (length xs))) = nat (6 * (p - 1))"
    using b(1) by (simp add: n)
  have hi: "nat (min (6 * p) (int (length xs))) = min (nat (6 * p)) n"
    by (simp only: nat_min_int n)
  have "currentMedicines st = slice xs (num_of_int (6 * (p - 1))) (num_of_int (6 * p))"
    unfolding currentMedicines_def idx xs [symmetric] by (rule refl)
  also have "\<dots> =
        take (nat (min (6 * p) (int (length xs))) - nat (min (6 * (p - 1)) (int (length xs))))
          (drop (nat (min (6 * (p - 1)) (int (length xs)))) xs)"
    using p(1) by (intro slice_int) simp_all
  also have "\<dots> =
        take (min (nat (6 * p)) n - nat (6 * (p - 1))) (drop (nat (6 * (p - 1))) xs)"
    by (simp only: lo hi)
  also have "\<dots> = map ((!) xs) [nat (6 * (p - 1))..<min (nat (6 * p)) n]"
    by (rule take_drop_nth) (simp add: n)
  finally show cm: "currentMedicines st = map ((!) xs) [nat (6 * (p - 1))..<min (nat (6 * p)) n]" .
  show "int (length (currentMedicines st)) = int n - 6 * (P - 1)" if "p = P"
  proof -
    have "min (nat (6 * P)) n = n" using b(2) by simp
    then have "length (currentMedicines st) = n - nat (6 * (P - 1))"
      unfolding cm using that by simp
    then show ?thesis using b(3) p that by simp
  qed
  have "js_sub (num_of_int p) (num_of_int 1) = num_of_int (p - 1)"
    using n32 pn p(1) by (intro js_sub_int) simp
  then show "currentPage (previous_page st) = num_of_int (max (p - 1) 1)"
    by (simp add: previous_page_def cur js_max_int)
  have "js_add (num_of_int p) (num_of_int 1) = num_of_int (p + 1)"
    using n32 pn p(1) by (intro js_add_int) simp
  then show nx: "currentPage (next_page st) = num_of_int (min (p + 1) P)"
    by (simp add: next_page_def cur tp js_min_int)
  show "1 \<le> max (p - 1) 1" by simp
  show "max (p - 1) 1 \<le> P" using p by simp
  show "1 \<le> min (p + 1) P" using p by simp
  show "min (p + 1) P \<le> P" by simp
  show "currentPage (next_page st) = num_of_int P" if "p = P"
    using nx that by simp
qed

theorem medicine_pagination_witness:
  "length (elements (filteredMedicines eight_medicines)) < 2 ^ 32
   \<and> (1::int) \<le> 2 \<and> (2::int) \<le> \<lceil>(8::rat) / 6\<rceil>
   \<and> currentPage eight_medicines = num_of_int 2
   \<and> totalPages eight_medicines = num_of_int 2
   \<and> currentMedicines eight_medicines = [sample_medicine 7, sample_medicine 8]
   \<and> currentPage (next_page eight_medicines) = num_of_int 2
   \<and> currentPage (previous_page eight_medicines) = num_of_int 1"
proof -
  have c: "\<lceil>(4::rat) / 3\<rceil> = 2" by (simp add: ceiling_eq_iff)
  have l: "length (elements (filteredMedicines eight_medicines)) = 8"
    by (simp add: eight_medicines_def)
  have cur: "currentPage eight_medicines = num_of_int 2" by (simp add: eight_medicines_def)
  have nth: "elements (filteredMedicines eight_medicines) ! 6 = sample_medicine 7"
    "elements (filteredMedicines eight_medicines) ! 7 = sample_medicine 8"
    by (simp_all add: eight_medicines_def)
  from medicine_pagination [of "elements (filteredMedicines eight_medicines)" eight_medicines
      8 2 2 eight_medicines]
  show ?thesis by (simp add: c l cur nth)
qed

section \<open>Properties of the alert view\<close>

lemma formatTime_parts:
  assumes "0 \<le> e" and "e < 2 ^ 53" and "0 < k" and "k < 2 ^ 53"
  shows "js_floor (js_div (num_of_int e) (num_of_int k)) = num_of_int (e div k)"
    and "number_to_string (num_of_int (e div k)) = Some (digits (nat (e div k)))"
proof -
  show "js_floor (js_div (num_of_int e) (num_of_int k)) = num_of_int (e div k)"
    by (rule js_floor_div_int [OF assms])
  have "0 \<le> e div k" using assms(1,3) by (simp add: pos_imp_zdiv_nonneg_iff)
  moreover have "e div k \<le> e div 1" using assms(1,3) by (intro zdiv_mono2) simp_all
  then have "e div k < 10 ^ 21" using assms(2) by simp
  ultimately show "number_to_string (num_of_int (e div k)) = Some (digits (nat (e div k)))"
    by (rule number_to_string_int)
qed

text \<open>
  C4. For an elapsed time \<open>now - t\<close> that is not negative and is below
  \<open>2\<^sup>5\<^sup>3\<close> milliseconds, \<open>formatTime\<close> renders the whole minutes when they are fewer
  than 60, else the whole hours when they are fewer than 24, else the whole days; each
  count is the elapsed time divided by the unit and truncated, printed in decimal.
\<close>

theorem formatTime_elapsed:
  assumes "0 \<le> now - t" and "now - t < 2 ^ 53"
  shows "formatTime now t =
           Some (if (now - t) div 60000 < 60
                 then digits (nat ((now - t) div 60000)) @ '' minutes ago''
                 else if (now - t) div 3600000 < 24
                 then digits (nat ((now - t) div 3600000)) @ '' hours ago''
                 else digits (nat ((now - t) div 86400000)) @ '' days ago'')"
proof -
  define e where "e = now - t"
  have e: "0 \<le> e" "e < 2 ^ 53" using assms by (simp_all add: e_def)
  have diff: "js_sub (num_of_int now) (num_of_int t) = num_of_int e"
    unfolding e_def using assms by (intro js_sub_int) simp
  note mins = formatTime_parts [OF e, of 60000, simplified]
  note hours = formatTime_parts [OF e, of 3600000, simplified]
  note days = formatTime_parts [OF e, of 86400000, simplified]
  show ?thesis
    unfolding formatTime_def diff Let_def mins hours days js_lt_int e_def [symmetric]
    by simp
qed

lemma digits_small: "n < 10 \<Longrightarrow> digits n = [digit_char n]"
  by (simp add: digits.simps)

lemma digits_large: "10 \<le> n \<Longrightarrow> digits n = digits (n div 10) @ [digit_char (n mod 10)]"
  by (subst digits.simps) simp

lemma digits_examples: "digits 45 = ''45''" "digits (Suc 0) = ''1''"
  by (simp_all add: digits_small digits_large digit_char_def)

theorem formatTime_elapsed_witness:
  "(0::int) \<le> 1705317300000 - 1705314600000 \<and> (1705317300000 - 1705314600000 :: int) < 2 ^ 53
   \<and> formatTime 1705317300000 1705314600000 = Some ''45 minutes ago''
   \<and> formatTime 1705320000000 1705314600000 = Some ''1 hours ago''
   \<and> formatTime 1705404600000 1705314600000 = Some ''1 days ago''"
  using formatTime_elapsed [of 1705317300000 1705314600000]
    formatTime_elapsed [of 1705320000000 1705314600000]
    formatTime_elapsed [of 1705404600000 1705314600000]
  by (simp add: digits_examples)

text \<open>
  From \<open>2\<^sup>5\<^sup>3\<close> milliseconds on the difference of the two time values is itself
  rounded: one millisecond short of 104249992 days it rounds up to the full day.
\<close>

lemma rnd_far_past: "rnd 9007199308799999 = 9007199308800000"
  by code_simp

lemma digits_far_past: "digits 104249992 = ''104249992''"
  by (simp add: digits_small digits_large digit_char_def)

lemma js_floor_div_exact:
  assumes "0 < q" and "q < 2 ^ 53" and "0 < k"
  shows "js_floor (js_div (Num False (of_int (q * k))) (num_of_int k)) = num_of_int q"
proof -
  have "(of_int (q * k) :: rat) / of_int k = of_int q" using assms(3) by simp
  then have "js_div (Num False (of_int (q * k))) (num_of_int k) = round_mag False (of_int q)"
    using assms(3) by (simp add: num_of_int_def)
  also have "\<dots> = Num False (of_int q)" by (rule round_mag_int [OF assms(1,2)])
  finally show ?thesis using assms(1) by (simp add: val_def num_of_int_def)
qed

theorem formatTime_far_past_counterexample:
  "(0::int) \<le> 8640000000000000 - (- 367199308799999)
   \<and> (8640000000000000 - (- 367199308799999)) div (86400000::int) = 104249991
   \<and> formatTime 8640000000000000 (- 367199308799999) = Some ''104249992 days ago''"
proof -
  have "round_mag False 9007199308799999 = Num False (rnd 9007199308799999)"
    by (intro round_mag_finite) simp_all
  then have diff: "js_sub (num_of_int 8640000000000000) (num_of_int (- 367199308799999)) =
                   Num False 9007199308800000"
    by (simp add: js_sub_def num_of_int_def val_def rnd_far_past)
  have mins: "js_floor (js_div (Num False 9007199308800000) (num_of_int 60000)) =
              num_of_int 150119988480"
    using js_floor_div_exact [of 150119988480 60000] by simp
  have hours: "js_floor (js_div (Num False 9007199308800000) (num_of_int 3600000)) =
               num_of_int 2501999808"
    using js_floor_div_exact [of 2501999808 3600000] by simp
  have days: "js_floor (js_div (Num False 9007199308800000) (num_of_int 86400000)) =
              num_of_int 104249992"
    using js_floor_div_exact [of 104249992 86400000] by simp
  have shown: "number_to_string (num_of_int 104249992) = Some ''104249992''"
    using number_to_string_int [of 104249992] by (simp add: digits_far_past)
  have "formatTime 8640000000000000 (- 367199308799999) = Some ''104249992 days ago''"
    unfolding formatTime_def diff Let_def mins hours days js_lt_int shown by simp
  then show ?thesis by simp
qed

lemma rnd_pos:
  assumes "1 \<le> x"
  shows "0 < rnd x"
proof -
  have "rnd (of_int 1) \<le> rnd x" using assms by (intro rnd_mono) simp_all
  moreover have "rnd (of_int 1) = of_int 1" by (rule rnd_int) simp_all
  ultimately show ?thesis by simp
qed

lemma js_lt_zero_round_mag:
  assumes "1 \<le> x"
  shows "js_lt (Num False 0) (round_mag s x) \<longleftrightarrow> \<not> s"
  using assms rnd_pos [OF assms] by (auto simp: round_mag_def val_def)

lemma by_recency_positive:
  "js_lt (Num False 0) (by_recency a b) \<longleftrightarrow> timestamp a < timestamp b"
proof -
  define v where "v = timestamp b - timestamp a"
  have val: "val (timestamp b < 0) (of_int \<bar>timestamp b\<bar>) +
             val (\<not> timestamp a < 0) (of_int \<bar>timestamp a\<bar>) = (of_int v :: rat)"
    by (simp add: val_def v_def)
  have eq: "by_recency a b =
            (if v = 0 then Num (timestamp b < 0 \<and> \<not> timestamp a < 0) 0
             else round_mag (v < 0) (of_int \<bar>v\<bar>))"
    unfolding by_recency_def js_sub_def num_of_int_def js_neg.simps js_add.simps val Let_def
    by simp
  show ?thesis
  proof (cases "v = 0")
    case True
    then show ?thesis by (simp add: eq val_def v_def)
  next
    case False
    then have "1 \<le> \<bar>v\<bar>" by simp
    then have "(of_int 1 :: rat) \<le> of_int \<bar>v\<bar>" by (simp only: of_int_le_iff)
    then have "(1::rat) \<le> of_int \<bar>v\<bar>" by simp
    then have "js_lt (Num False 0) (round_mag (v < 0) (of_int \<bar>v\<bar>)) \<longleftrightarrow> \<not> v < 0"
      by (rule js_lt_zero_round_mag)
    with False have "js_lt (Num False 0) (by_recency a b) \<longleftrightarrow> \<not> v < 0"
      by (simp only: eq if_False)
    moreover have "\<not> v < 0 \<longleftrightarrow> timestamp a < timestamp b"
      using False unfolding v_def by presburger
    ultimately show ?thesis by (rule trans)
  qed
qed






lemma slice_first_five: "slice xs (num_of_int 0) (num_of_int 5) = take 5 xs"
proof -
  have "slice xs (num_of_int 0) (num_of_int 5) =
        take (nat (min 5 (int (length xs))) - nat (min 0 (int (length xs))))
          (drop (nat (min 0 (int (length xs)))) xs)"
    by (intro slice_int) simp_all
  also have "\<dots> = take (min 5 (length xs)) xs" by (simp add: nat_min_int)
  finally show ?thesis by (simp add: min_def)
qed

lemma render_alerts_recent:
  assumes "h (alerts st) = Some C"
  shows "recentAlerts (fst (render_alerts st h)) = take 5 (sort_by by_recency C)"
    and "snd (render_alerts st h) = h(alerts st \<mapsto> sort_by by_recency C)"
  using assms
  by (simp_all add: render_alerts_def Let_def sort_in_place_def contents_def slice_first_five)



text \<open>
  C7. The render does change the raw collection: \<open>sort\<close> reorders the array held in
  \<open>alerts\<close> in place. After a fetch that delivered the older alert first, one render
  leaves the newer alert first in the store, and since \<open>filteredAlerts\<close> holds the same
  array, the main list is shown in the new order too.
\<close>

theorem render_sorts_raw_alerts_in_place:
  "contents (snd fetched_view) (alerts (fst fetched_view)) = [older_alert, newer_alert]
   \<and> contents (snd (render_alerts (fst fetched_view) (snd fetched_view)))
         (alerts (fst fetched_view)) = [newer_alert, older_alert]
   \<and> listed (fst (render_alerts (fst fetched_view) (snd fetched_view))) =
         [newer_alert, older_alert]
   \<and> [newer_alert, older_alert] \<noteq> [older_alert, newer_alert]"
proof -
  have s: "snd fetched_view (alerts (fst fetched_view)) = Some [older_alert, newer_alert]"
    by (simp add: fetched_view_def alerts_fetched_def)
  have same: "filteredAlerts (fst fetched_view) = alerts (fst fetched_view)"
    by (simp add: fetched_view_def alerts_fetched_def)
  have t: "timestamp older_alert < timestamp newer_alert"
    by (simp add: older_alert_def newer_alert_def)
  have sorted: "sort_by by_recency [older_alert, newer_alert] = [newer_alert, older_alert]"
    using t by (simp add: by_recency_positive)
  have after: "snd (render_alerts (fst fetched_view) (snd fetched_view)) =
        (snd fetched_view)(alerts (fst fetched_view) \<mapsto> [newer_alert, older_alert])"
    by (rule render_alerts_recent(2)
      [of "snd fetched_view" "fst fetched_view" "[older_alert, newer_alert]", OF s,
       unfolded sorted])
  have l: "listed (fst (render_alerts (fst fetched_view) (snd fetched_view))) =
           [newer_alert, older_alert]"
    using s t
    by (simp add: render_alerts_def Let_def sort_in_place_def contents_def same
        by_recency_positive)
  have ne: "newer_alert \<noteq> older_alert"
    using t by auto
  show ?thesis using s l ne by (simp add: after contents_def)
qed

end
